theory Spec2Isabelle
  imports Main
begin

section \<open>Flowerpot: a path-addressed content store over a key-value engine\<close>

text \<open>
  The development embeds \<^verbatim>\<open>main.go\<close>: the \<^verbatim>\<open>DataValue\<close> struct, the three store
  operations \<^verbatim>\<open>storeValue\<close>, \<^verbatim>\<open>deleteValue\<close>, \<^verbatim>\<open>getValue\<close> and the HTTP handlers
  built on them. Go strings and byte slices are sequences of bytes, modelled as
  \<^typ>\<open>string\<close> (a list of 8-bit characters). A byte slice that may be \<^verbatim>\<open>nil\<close> is a
  \<^typ>\<open>string option\<close>: \<open>None\<close> is the nil slice, \<open>Some []\<close> the empty non-nil one.

  The two libraries the program calls are modelled from their documented behaviour:
  \<^verbatim>\<open>encoding/json\<close> at the level of the bytes it writes and reads, and the
  key-value engine as a map from keys to values with the checks the engine makes on
  the key and the value of an entry.
\<close>

subsection \<open>Bytes and errors\<close>

abbreviation byte :: "char \<Rightarrow> nat" where
  "byte c \<equiv> of_char c"

definition dquote :: char where
  "dquote = CHR 0x22"

definition bslash :: char where
  "bslash = CHR 0x5C"

datatype error =
    ErrKeyNotFound
  | ErrEmptyKey
  | ErrInvalidKey
  | ErrExceedsSize string
  | SyntaxError
  | UnmarshalTypeError string
  | CorruptInputError
  | ErrUnexpectedEOF

subsection \<open>The stored value\<close>

record DataValue =
  Content :: string
  ContentType :: string
  Data :: "string option"

definition zeroValue :: DataValue where
  "zeroValue = \<lparr>Content = [], ContentType = [], Data = None\<rparr>"

subsection \<open>UTF-8 (package unicode/utf8)\<close>

definition RuneError :: nat where
  "RuneError = 0xFFFD"

definition RuneSelf :: nat where
  "RuneSelf = 0x80"

definition acceptLo :: "nat \<Rightarrow> nat" where
  "acceptLo p0 = (if p0 = 0xE0 then 0xA0 else if p0 = 0xF0 then 0x90 else 0x80)"

definition acceptHi :: "nat \<Rightarrow> nat" where
  "acceptHi p0 = (if p0 = 0xED then 0x9F else if p0 = 0xF4 then 0x8F else 0xBF)"

text \<open>\<^verbatim>\<open>utf8.DecodeRune\<close>: the rune at the head of the bytes and its width;
  \<open>(RuneError, 1)\<close> marks a byte that starts no well-formed sequence.\<close>

fun DecodeRune :: "string \<Rightarrow> nat \<times> nat" where
  "DecodeRune [] = (RuneError, 0)"
| "DecodeRune (c0 # p) =
     (let p0 = byte c0 in
      if p0 < 0x80 then (p0, 1)
      else if p0 < 0xC2 \<or> 0xF4 < p0 then (RuneError, 1)
      else
        let sz = (if p0 < 0xE0 then 2 else if p0 < 0xF0 then 3 else (4::nat)) in
        if Suc (length p) < sz then (RuneError, 1)
        else
          let b1 = byte (p ! 0) in
          if b1 < acceptLo p0 \<or> acceptHi p0 < b1 then (RuneError, 1)
          else if sz \<le> 2 then ((p0 mod 32) * 64 + b1 mod 64, 2)
          else
            let b2 = byte (p ! 1) in
            if b2 < 0x80 \<or> 0xBF < b2 then (RuneError, 1)
            else if sz \<le> 3 then ((p0 mod 16) * 4096 + (b1 mod 64) * 64 + b2 mod 64, 3)
            else
              let b3 = byte (p ! 2) in
              if b3 < 0x80 \<or> 0xBF < b3 then (RuneError, 1)
              else ((p0 mod 8) * 262144 + (b1 mod 64) * 4096 + (b2 mod 64) * 64
                      + b3 mod 64, 4))"

text \<open>\<^verbatim>\<open>utf8.EncodeRune\<close>: surrogates and values beyond U+10FFFF are written as
  U+FFFD.\<close>

definition EncodeRune :: "nat \<Rightarrow> string" where
  "EncodeRune r =
     (if r \<le> 0x7F then [char_of r]
      else if r \<le> 0x7FF then [char_of (0xC0 + r div 64), char_of (0x80 + r mod 64)]
      else if 0x10FFFF < r \<or> (0xD800 \<le> r \<and> r \<le> 0xDFFF) then [CHR 0xEF, CHR 0xBF, CHR 0xBD]
      else if r \<le> 0xFFFF then
        [char_of (0xE0 + r div 4096), char_of (0x80 + (r div 64) mod 64),
         char_of (0x80 + r mod 64)]
      else
        [char_of (0xF0 + r div 262144), char_of (0x80 + (r div 4096) mod 64),
         char_of (0x80 + (r div 64) mod 64), char_of (0x80 + r mod 64)])"

text \<open>\<^verbatim>\<open>utf8.ValidString\<close>.\<close>

fun ValidString :: "string \<Rightarrow> bool" where
  "ValidString [] = True"
| "ValidString (c # cs) =
     (case DecodeRune (c # cs) of (r, sz) \<Rightarrow>
        \<not> (r = RuneError \<and> sz = 1) \<and> ValidString (drop (sz - 1) cs))"

text \<open>What the JSON encoder and decoder make of a string that is not well-formed
  UTF-8: every byte that starts no well-formed sequence becomes one U+FFFD.\<close>

fun coerceUTF8 :: "string \<Rightarrow> string" where
  "coerceUTF8 [] = []"
| "coerceUTF8 (c # cs) =
     (case DecodeRune (c # cs) of (r, sz) \<Rightarrow>
        if r = RuneError \<and> sz = 1 then EncodeRune RuneError @ coerceUTF8 cs
        else take sz (c # cs) @ coerceUTF8 (drop (sz - 1) cs))"

subsection \<open>JSON encoding (json.Marshal of a DataValue)\<close>

definition hex :: string where
  "hex = ''0123456789abcdef''"

text \<open>\<^verbatim>\<open>htmlSafeSet\<close>: the ASCII bytes the encoder copies unescaped; everything
  from space up except the quote, the backslash and \<^verbatim>\<open>& < >\<close>.\<close>

definition htmlSafeSet :: "char \<Rightarrow> bool" where
  "htmlSafeSet c =
     (0x20 \<le> byte c \<and> byte c < 0x80 \<and> c \<noteq> dquote \<and> c \<noteq> bslash
        \<and> c \<noteq> CHR ''&'' \<and> c \<noteq> CHR ''<'' \<and> c \<noteq> CHR ''>'')"

definition escapeByte :: "char \<Rightarrow> string" where
  "escapeByte c =
     (if c = bslash \<or> c = dquote then [bslash, c]
      else if c = CHR 0x08 then [bslash, CHR ''b'']
      else if c = CHR 0x0C then [bslash, CHR ''f'']
      else if c = CHR 0x0A then [bslash, CHR ''n'']
      else if c = CHR 0x0D then [bslash, CHR ''r'']
      else if c = CHR 0x09 then [bslash, CHR ''t'']
      else [bslash, CHR ''u'', CHR ''0'', CHR ''0'', hex ! (byte c div 16), hex ! (byte c mod 16)])"

text \<open>The loop of \<^verbatim>\<open>appendString\<close> with HTML escaping on, between the two quotes.\<close>

fun appendString_loop :: "string \<Rightarrow> string" where
  "appendString_loop [] = []"
| "appendString_loop (c # cs) =
     (if byte c < RuneSelf then
        (if htmlSafeSet c then c # appendString_loop cs
         else escapeByte c @ appendString_loop cs)
      else
        (case DecodeRune (c # cs) of (r, sz) \<Rightarrow>
           if r = RuneError \<and> sz = 1 then
             [bslash, CHR ''u'', CHR ''f'', CHR ''f'', CHR ''f'', CHR ''d''] @ appendString_loop cs
           else if r = 0x2028 \<or> r = 0x2029 then
             [bslash, CHR ''u'', CHR ''2'', CHR ''0'', CHR ''2'', hex ! (r mod 16)]
               @ appendString_loop (drop (sz - 1) cs)
           else take sz (c # cs) @ appendString_loop (drop (sz - 1) cs)))"

definition appendString :: "string \<Rightarrow> string" where
  "appendString src = dquote # appendString_loop src @ [dquote]"

subsubsection \<open>Base64 (base64.StdEncoding)\<close>

definition encodeStd :: string where
  "encodeStd = ''ABCDEFGHIJKLMNOPQRSTUVWXYZabcdefghijklmnopqrstuvwxyz0123456789+/''"

fun b64Encode :: "string \<Rightarrow> string" where
  "b64Encode [] = []"
| "b64Encode [a] =
     [encodeStd ! (byte a div 4), encodeStd ! ((byte a mod 4) * 16), CHR ''='', CHR ''='']"
| "b64Encode [a, b] =
     [encodeStd ! (byte a div 4), encodeStd ! ((byte a mod 4) * 16 + byte b div 16),
      encodeStd ! ((byte b mod 16) * 4), CHR ''='']"
| "b64Encode (a # b # c # rest) =
     [encodeStd ! (byte a div 4), encodeStd ! ((byte a mod 4) * 16 + byte b div 16),
      encodeStd ! ((byte b mod 16) * 4 + byte c div 64), encodeStd ! (byte c mod 64)]
       @ b64Encode rest"

text \<open>A byte slice is written as a base64 string without further escaping.\<close>

definition encodeByteSlice :: "string \<Rightarrow> string" where
  "encodeByteSlice b = dquote # b64Encode b @ [dquote]"

text \<open>\<^verbatim>\<open>omitempty\<close> on \<^verbatim>\<open>Data\<close>: the field is left out when the slice has length
  zero, nil or not.\<close>

definition isEmptyValue :: "string option \<Rightarrow> bool" where
  "isEmptyValue d = (case d of None \<Rightarrow> True | Some b \<Rightarrow> length b = 0)"

definition json_Marshal :: "DataValue \<Rightarrow> error + string" where
  "json_Marshal v =
     Inr (''{'' @ appendString ''content'' @ '':'' @ appendString (Content v)
          @ '','' @ appendString ''content_type'' @ '':'' @ appendString (ContentType v)
          @ (if isEmptyValue (Data v) then []
             else '','' @ appendString ''data'' @ '':'' @ encodeByteSlice (the (Data v)))
          @ ''}'')"

subsection \<open>JSON decoding (json.Unmarshal and Decoder.Decode into a DataValue)\<close>

text \<open>
  The decoder first reads a JSON text into a tree and then stores the tree into the
  struct. Every way a text can be ill-formed is one error, \<open>SyntaxError\<close>; the two
  callers in the program look at no more than whether decoding failed.
\<close>

datatype json =
    JNull
  | JBool bool
  | JNumber string
  | JString string
  | JArray "json list"
  | JObject "(string \<times> json) list"

definition isSpace :: "char \<Rightarrow> bool" where
  "isSpace c = (c = CHR '' '' \<or> c = CHR 0x09 \<or> c = CHR 0x0D \<or> c = CHR 0x0A)"

definition skipSpace :: "string \<Rightarrow> string" where
  "skipSpace s = dropWhile isSpace s"

definition isDigit :: "char \<Rightarrow> bool" where
  "isDigit c = (0x30 \<le> byte c \<and> byte c \<le> 0x39)"

definition hexVal :: "char \<Rightarrow> nat option" where
  "hexVal c =
     (if 0x30 \<le> byte c \<and> byte c \<le> 0x39 then Some (byte c - 0x30)
      else if 0x61 \<le> byte c \<and> byte c \<le> 0x66 then Some (byte c - 0x61 + 10)
      else if 0x41 \<le> byte c \<and> byte c \<le> 0x46 then Some (byte c - 0x41 + 10)
      else None)"

text \<open>\<^verbatim>\<open>getu4\<close>: the value of a leading \<^verbatim>\<open>\uXXXX\<close>, if the bytes start with one.\<close>

definition getu4 :: "string \<Rightarrow> nat option" where
  "getu4 s =
     (case s of
        c0 # c1 # h1 # h2 # h3 # h4 # _ \<Rightarrow>
          if c0 \<noteq> bslash \<or> c1 \<noteq> CHR ''u'' then None
          else
            (case hexVal h1 of None \<Rightarrow> None | Some a \<Rightarrow>
            (case hexVal h2 of None \<Rightarrow> None | Some b \<Rightarrow>
            (case hexVal h3 of None \<Rightarrow> None | Some c \<Rightarrow>
            (case hexVal h4 of None \<Rightarrow> None | Some d \<Rightarrow>
               Some (((a * 16 + b) * 16 + c) * 16 + d)))))
      | _ \<Rightarrow> None)"

definition IsSurrogate :: "nat \<Rightarrow> bool" where
  "IsSurrogate r = (0xD800 \<le> r \<and> r < 0xE000)"

text \<open>\<^verbatim>\<open>utf16.DecodeRune\<close>: the code point of a surrogate pair, U+FFFD when the
  two values are no pair.\<close>

definition utf16_DecodeRune :: "nat \<Rightarrow> nat option \<Rightarrow> nat" where
  "utf16_DecodeRune r1 r2 =
     (case r2 of
        None \<Rightarrow> RuneError
      | Some r2' \<Rightarrow>
          if 0xD800 \<le> r1 \<and> r1 < 0xDC00 \<and> 0xDC00 \<le> r2' \<and> r2' < 0xE000
          then (r1 - 0xD800) * 1024 + (r2' - 0xDC00) + 0x10000
          else RuneError)"

definition unescape :: "char \<Rightarrow> char option" where
  "unescape e =
     (if e = dquote \<or> e = bslash \<or> e = CHR ''/'' then Some e
      else if e = CHR ''b'' then Some (CHR 0x08)
      else if e = CHR ''f'' then Some (CHR 0x0C)
      else if e = CHR ''n'' then Some (CHR 0x0A)
      else if e = CHR ''r'' then Some (CHR 0x0D)
      else if e = CHR ''t'' then Some (CHR 0x09)
      else None)"

definition prepend :: "string \<Rightarrow> (string \<times> string) option \<Rightarrow> (string \<times> string) option" where
  "prepend b res = (case res of None \<Rightarrow> None | Some (t, rest) \<Rightarrow> Some (b @ t, rest))"

text \<open>
  A string literal, read from behind its opening quote: the scanner's check and
  \<^verbatim>\<open>unquote\<close> in one pass. The result is the unquoted string and the input
  behind the closing quote. Ill-formed UTF-8 in the literal is read as U+FFFD.
\<close>

fun stringLit :: "string \<Rightarrow> (string \<times> string) option" where
  "stringLit [] = None"
| "stringLit (c # cs) =
     (if c = dquote then Some ([], cs)
      else if c = bslash then
        (case cs of
           [] \<Rightarrow> None
         | e # cs' \<Rightarrow>
             if e = CHR ''u'' then
               (case getu4 (c # cs) of
                  None \<Rightarrow> None
                | Some rr \<Rightarrow>
                    if IsSurrogate rr then
                      (let dec = utf16_DecodeRune rr (getu4 (drop 5 cs)) in
                       if dec \<noteq> RuneError then prepend (EncodeRune dec) (stringLit (drop 11 cs))
                       else prepend (EncodeRune RuneError) (stringLit (drop 5 cs)))
                    else prepend (EncodeRune rr) (stringLit (drop 5 cs)))
             else
               (case unescape e of
                  None \<Rightarrow> None
                | Some b \<Rightarrow> prepend [b] (stringLit cs')))
      else if byte c < 0x20 then None
      else if byte c < RuneSelf then prepend [c] (stringLit cs)
      else
        (case DecodeRune (c # cs) of (rr, sz) \<Rightarrow>
           prepend (EncodeRune rr) (stringLit (drop (sz - 1) cs))))"

text \<open>A number literal: its text and the input behind it.\<close>

definition fractionLit :: "string \<Rightarrow> (string \<times> string) option" where
  "fractionLit s =
     (case s of
        [] \<Rightarrow> Some ([], s)
      | c # r \<Rightarrow>
          if c \<noteq> CHR ''.'' then Some ([], s)
          else
            (case r of
               [] \<Rightarrow> None
             | d # _ \<Rightarrow>
                 if isDigit d then Some (c # takeWhile isDigit r, dropWhile isDigit r)
                 else None))"

definition exponentLit :: "string \<Rightarrow> (string \<times> string) option" where
  "exponentLit s =
     (case s of
        [] \<Rightarrow> Some ([], s)
      | e # r \<Rightarrow>
          if e \<noteq> CHR ''e'' \<and> e \<noteq> CHR ''E'' then Some ([], s)
          else
            (let (sg, r1) =
                   (case r of
                      [] \<Rightarrow> ([], r)
                    | x # r' \<Rightarrow> if x = CHR ''+'' \<or> x = CHR ''-'' then ([x], r') else ([], r))
             in case r1 of
                  [] \<Rightarrow> None
                | d # _ \<Rightarrow>
                    if isDigit d then Some (e # sg @ takeWhile isDigit r1, dropWhile isDigit r1)
                    else None))"

definition numberLit :: "string \<Rightarrow> (string \<times> string) option" where
  "numberLit s =
     (let (sign, s1) =
            (case s of
               [] \<Rightarrow> ([], s)
             | c # r \<Rightarrow> if c = CHR ''-'' then ([c], r) else ([], s))
      in case s1 of
           [] \<Rightarrow> None
         | d # s2 \<Rightarrow>
             if \<not> isDigit d then None
             else
               (let (ip, s3) =
                      (if d = CHR ''0'' then ([d], s2)
                       else (d # takeWhile isDigit s2, dropWhile isDigit s2))
                in case fractionLit s3 of
                     None \<Rightarrow> None
                   | Some (fp, s4) \<Rightarrow>
                       (case exponentLit s4 of
                          None \<Rightarrow> None
                        | Some (ep, s5) \<Rightarrow> Some (sign @ ip @ fp @ ep, s5))))"

definition literalLit :: "string \<Rightarrow> (json \<times> string) option" where
  "literalLit s =
     (if take 4 s = ''true'' then Some (JBool True, drop 4 s)
      else if take 5 s = ''false'' then Some (JBool False, drop 5 s)
      else if take 4 s = ''null'' then Some (JNull, drop 4 s)
      else None)"

definition maxNestingDepth :: nat where
  "maxNestingDepth = 10000"

text \<open>
  One JSON value from the head of the input, and the input behind it. The first
  argument bounds the recursion and the second counts the arrays and objects that are
  open; the decoder gives up beyond \<open>maxNestingDepth\<close> of them.
\<close>

fun parseValue :: "nat \<Rightarrow> nat \<Rightarrow> string \<Rightarrow> (json \<times> string) option"
  and parseArray :: "nat \<Rightarrow> nat \<Rightarrow> json list \<Rightarrow> string \<Rightarrow> (json \<times> string) option"
  and parseObject :: "nat \<Rightarrow> nat \<Rightarrow> (string \<times> json) list \<Rightarrow> string \<Rightarrow> (json \<times> string) option"
where
  "parseValue 0 d s = None"
| "parseValue (Suc n) d s =
     (case skipSpace s of
        [] \<Rightarrow> None
      | c # cs \<Rightarrow>
          if c = CHR ''{'' then
            (if maxNestingDepth < Suc d then None
             else
               (case skipSpace cs of
                  [] \<Rightarrow> None
                | c' # r \<Rightarrow>
                    if c' = CHR ''}'' then Some (JObject [], r)
                    else parseObject n (Suc d) [] (c' # r)))
          else if c = CHR ''['' then
            (if maxNestingDepth < Suc d then None
             else
               (case skipSpace cs of
                  [] \<Rightarrow> None
                | c' # r \<Rightarrow>
                    if c' = CHR '']'' then Some (JArray [], r)
                    else parseArray n (Suc d) [] (c' # r)))
          else if c = dquote then
            (case stringLit cs of
               None \<Rightarrow> None
             | Some (str, r) \<Rightarrow> Some (JString str, r))
          else if c = CHR ''-'' \<or> isDigit c then
            (case numberLit (c # cs) of
               None \<Rightarrow> None
             | Some (lit, r) \<Rightarrow> Some (JNumber lit, r))
          else literalLit (c # cs))"
| "parseArray 0 d acc s = None"
| "parseArray (Suc n) d acc s =
     (case parseValue n d s of
        None \<Rightarrow> None
      | Some (v, r) \<Rightarrow>
          (case skipSpace r of
             [] \<Rightarrow> None
           | c # r' \<Rightarrow>
               if c = CHR '','' then parseArray n d (acc @ [v]) r'
               else if c = CHR '']'' then Some (JArray (acc @ [v]), r')
               else None))"
| "parseObject 0 d acc s = None"
| "parseObject (Suc n) d acc s =
     (case skipSpace s of
        [] \<Rightarrow> None
      | c # r \<Rightarrow>
          if c \<noteq> dquote then None
          else
            (case stringLit r of
               None \<Rightarrow> None
             | Some (k, r1) \<Rightarrow>
                 (case skipSpace r1 of
                    [] \<Rightarrow> None
                  | c1 # r2 \<Rightarrow>
                      if c1 \<noteq> CHR '':'' then None
                      else
                        (case parseValue n d r2 of
                           None \<Rightarrow> None
                         | Some (v, r3) \<Rightarrow>
                             (case skipSpace r3 of
                                [] \<Rightarrow> None
                              | c3 # r4 \<Rightarrow>
                                  if c3 = CHR '','' then parseObject n d (acc @ [(k, v)]) r4
                                  else if c3 = CHR ''}'' then Some (JObject (acc @ [(k, v)]), r4)
                                  else None)))))"

text \<open>The fuel given for an input: twice its length bounds the depth of the recursion
  on it (lemma \<open>fuelFor_enough\<close> below).\<close>

definition fuelFor :: "string \<Rightarrow> nat" where
  "fuelFor s = 2 * length s + 2"

definition parseDocument :: "string \<Rightarrow> json option" where
  \<comment> \<open>\<^verbatim>\<open>json.Unmarshal\<close> takes one value with nothing but space around it\<close>
  "parseDocument s =
     (case parseValue (fuelFor s) 0 s of
        None \<Rightarrow> None
      | Some (v, r) \<Rightarrow> if skipSpace r = [] then Some v else None)"

definition parseFirst :: "string \<Rightarrow> json option" where
  \<comment> \<open>\<^verbatim>\<open>Decoder.Decode\<close> takes the first value of the stream and leaves the rest\<close>
  "parseFirst s =
     (case parseValue (fuelFor s) 0 s of
        None \<Rightarrow> None
      | Some (v, r) \<Rightarrow> Some v)"

subsubsection \<open>Base64 decoding\<close>

definition decodeMap :: "char \<Rightarrow> nat option" where
  "decodeMap c =
     (if 0x41 \<le> byte c \<and> byte c \<le> 0x5A then Some (byte c - 0x41)
      else if 0x61 \<le> byte c \<and> byte c \<le> 0x7A then Some (byte c - 0x61 + 26)
      else if 0x30 \<le> byte c \<and> byte c \<le> 0x39 then Some (byte c - 0x30 + 52)
      else if c = CHR ''+'' then Some 62
      else if c = CHR ''/'' then Some 63
      else None)"

fun decodeQuanta :: "string \<Rightarrow> string option" where
  "decodeQuanta [] = Some []"
| "decodeQuanta (a # b # c # d # rest) =
     (case decodeMap a of None \<Rightarrow> None | Some x \<Rightarrow>
     (case decodeMap b of None \<Rightarrow> None | Some y \<Rightarrow>
     (case decodeMap c of
        None \<Rightarrow>
          if c = CHR ''='' \<and> d = CHR ''='' \<and> rest = [] then Some [char_of (x * 4 + y div 16)]
          else None
      | Some z \<Rightarrow>
          (case decodeMap d of
             None \<Rightarrow>
               if d = CHR ''='' \<and> rest = []
               then Some [char_of (x * 4 + y div 16), char_of ((y mod 16) * 16 + z div 4)]
               else None
           | Some w \<Rightarrow>
               (case decodeQuanta rest of
                  None \<Rightarrow> None
                | Some bs \<Rightarrow>
                    Some (char_of (x * 4 + y div 16) # char_of ((y mod 16) * 16 + z div 4)
                            # char_of ((z mod 4) * 64 + w) # bs))))))"
| "decodeQuanta _ = None"

text \<open>The standard decoding skips line breaks and insists on the padding.\<close>

definition b64Decode :: "string \<Rightarrow> string option" where
  "b64Decode s = decodeQuanta (filter (\<lambda>c. c \<noteq> CHR 0x0A \<and> c \<noteq> CHR 0x0D) s)"

subsubsection \<open>Storing a JSON tree into the struct\<close>

datatype field = FContent | FContentType | FData

definition asciiLower :: "char \<Rightarrow> char" where
  "asciiLower c = (if 0x41 \<le> byte c \<and> byte c \<le> 0x5A then char_of (byte c + 32) else c)"

text \<open>A key names a field when it is the field's JSON name, exactly or up to the
  case of its letters.\<close>

definition fieldByName :: "string \<Rightarrow> field option" where
  "fieldByName key =
     (if key = ''content'' then Some FContent
      else if key = ''content_type'' then Some FContentType
      else if key = ''data'' then Some FData
      else if map asciiLower key = ''content'' then Some FContent
      else if map asciiLower key = ''content_type'' then Some FContentType
      else if map asciiLower key = ''data'' then Some FData
      else None)"

fun storeString :: "json \<Rightarrow> string \<Rightarrow> error + string" where
  "storeString JNull old = Inr old"
| "storeString (JString s) old = Inr s"
| "storeString (JBool b) old = Inl (UnmarshalTypeError ''bool'')"
| "storeString (JNumber n) old = Inl (UnmarshalTypeError ''number'')"
| "storeString (JArray es) old = Inl (UnmarshalTypeError ''array'')"
| "storeString (JObject ms) old = Inl (UnmarshalTypeError ''object'')"

definition ParseUint8 :: "string \<Rightarrow> nat option" where
  "ParseUint8 lit =
     (if lit \<noteq> [] \<and> list_all isDigit lit then
        (let n = foldl (\<lambda>a c. a * 10 + (byte c - 0x30)) 0 lit
         in if n \<le> 255 then Some n else None)
      else None)"

fun storeByte :: "json \<Rightarrow> char \<Rightarrow> error + char" where
  "storeByte JNull old = Inr old"
| "storeByte (JNumber lit) old =
     (case ParseUint8 lit of
        None \<Rightarrow> Inl (UnmarshalTypeError ''number'')
      | Some n \<Rightarrow> Inr (char_of n))"
| "storeByte (JString s) old = Inl (UnmarshalTypeError ''string'')"
| "storeByte (JBool b) old = Inl (UnmarshalTypeError ''bool'')"
| "storeByte (JArray es) old = Inl (UnmarshalTypeError ''array'')"
| "storeByte (JObject ms) old = Inl (UnmarshalTypeError ''object'')"

text \<open>A JSON array is stored into the slice element by element; an element of the
  slice that the array gives as \<^verbatim>\<open>null\<close> keeps its byte. Bytes behind the
  length of the old slice count as zero.\<close>

fun storeArray :: "json list \<Rightarrow> string \<Rightarrow> error + string" where
  "storeArray [] old = Inr []"
| "storeArray (e # es) old =
     (case storeByte e (case old of [] \<Rightarrow> CHR 0x00 | b # _ \<Rightarrow> b) of
        Inl err \<Rightarrow> Inl err
      | Inr b \<Rightarrow>
          (case storeArray es (tl old) of
             Inl err \<Rightarrow> Inl err
           | Inr bs \<Rightarrow> Inr (b # bs)))"

fun storeBytes :: "json \<Rightarrow> string option \<Rightarrow> error + string option" where
  "storeBytes JNull old = Inr None"
| "storeBytes (JString s) old =
     (case b64Decode s of
        None \<Rightarrow> Inl CorruptInputError
      | Some b \<Rightarrow> Inr (Some b))"
| "storeBytes (JArray es) old =
     (case storeArray es (case old of None \<Rightarrow> [] | Some b \<Rightarrow> b) of
        Inl err \<Rightarrow> Inl err
      | Inr b \<Rightarrow> Inr (Some b))"
| "storeBytes (JBool b) old = Inl (UnmarshalTypeError ''bool'')"
| "storeBytes (JNumber n) old = Inl (UnmarshalTypeError ''number'')"
| "storeBytes (JObject ms) old = Inl (UnmarshalTypeError ''object'')"

definition storeField :: "DataValue \<Rightarrow> string \<times> json \<Rightarrow> error + DataValue" where
  "storeField v m =
     (case fieldByName (fst m) of
        None \<Rightarrow> Inr v
      | Some FContent \<Rightarrow>
          (case storeString (snd m) (Content v) of
             Inl err \<Rightarrow> Inl err
           | Inr s \<Rightarrow> Inr (v\<lparr>Content := s\<rparr>))
      | Some FContentType \<Rightarrow>
          (case storeString (snd m) (ContentType v) of
             Inl err \<Rightarrow> Inl err
           | Inr s \<Rightarrow> Inr (v\<lparr>ContentType := s\<rparr>))
      | Some FData \<Rightarrow>
          (case storeBytes (snd m) (Data v) of
             Inl err \<Rightarrow> Inl err
           | Inr b \<Rightarrow> Inr (v\<lparr>Data := b\<rparr>)))"

text \<open>The members of an object are stored in their order, so a later duplicate
  overwrites an earlier one. The first error is the one reported; the callers drop
  the struct when there is one.\<close>

fun storeObject :: "(string \<times> json) list \<Rightarrow> DataValue \<Rightarrow> error + DataValue" where
  "storeObject [] v = Inr v"
| "storeObject (m # ms) v =
     (case storeField v m of
        Inl err \<Rightarrow> Inl err
      | Inr v' \<Rightarrow> storeObject ms v')"

fun unmarshalValue :: "json \<Rightarrow> DataValue \<Rightarrow> error + DataValue" where
  "unmarshalValue (JObject ms) v = storeObject ms v"
| "unmarshalValue JNull v = Inr v"
| "unmarshalValue (JArray es) v = Inl (UnmarshalTypeError ''array'')"
| "unmarshalValue (JString s) v = Inl (UnmarshalTypeError ''string'')"
| "unmarshalValue (JNumber n) v = Inl (UnmarshalTypeError ''number'')"
| "unmarshalValue (JBool b) v = Inl (UnmarshalTypeError ''bool'')"

definition json_Unmarshal :: "string \<Rightarrow> error + DataValue" where
  \<comment> \<open>\<^verbatim>\<open>var dataValue DataValue; json.Unmarshal(val, &dataValue)\<close>\<close>
  "json_Unmarshal val =
     (case parseDocument val of
        None \<Rightarrow> Inl SyntaxError
      | Some j \<Rightarrow> unmarshalValue j zeroValue)"

definition json_Decode :: "string \<Rightarrow> error + DataValue" where
  \<comment> \<open>\<^verbatim>\<open>var dataValue DataValue; json.NewDecoder(r.Body).Decode(&dataValue)\<close>\<close>
  "json_Decode body =
     (case parseFirst body of
        None \<Rightarrow> Inl SyntaxError
      | Some j \<Rightarrow> unmarshalValue j zeroValue)"

subsection \<open>The key-value engine\<close>

text \<open>
  The engine holds values under keys. It takes an entry only under a key that is not
  empty, does not start with the prefix the engine keeps for itself, and is at most
  \<open>maxKeySize\<close> bytes long, and only a value of at most \<open>ValueLogFileSize\<close> bytes
  (the default options, which \<^verbatim>\<open>main\<close> opens the store with). A deletion is an entry
  with an empty value and goes through the same checks. So a store never holds a value
  under a key the engine refuses, which the type \<open>DB\<close> records.

  A transaction works on a copy of the store; \<open>db_Update\<close> installs the copy when the
  transaction's function returns no error and drops it otherwise, \<open>db_View\<close> only
  reads. A lookup refuses the empty key and answers an absent key with
  \<open>ErrKeyNotFound\<close>. Each transaction of the program writes one entry, so the
  engine's bound on the size of a transaction is not reached; failures of the storage
  medium are outside the model.
\<close>

definition badgerPrefix :: string where
  "badgerPrefix = ''!badger!''"

definition maxKeySize :: nat where
  "maxKeySize = 65000"

definition ValueLogFileSize :: nat where
  "ValueLogFileSize = 2 ^ 30 - 1"

definition HasPrefix :: "string \<Rightarrow> string \<Rightarrow> bool" where
  "HasPrefix s pre = (length pre \<le> length s \<and> take (length pre) s = pre)"

text \<open>The checks on the key of an entry, in the order the engine makes them.\<close>

definition keyError :: "string \<Rightarrow> error option" where
  "keyError key =
     (if length key = 0 then Some ErrEmptyKey
      else if HasPrefix key badgerPrefix then Some ErrInvalidKey
      else if maxKeySize < length key then Some (ErrExceedsSize ''Key'')
      else None)"

typedef DB = "{m :: string \<rightharpoonup> string. \<forall>key \<in> dom m. keyError key = None}"
  morphisms entries Abs_DB
  by (rule exI[of _ Map.empty]) simp

setup_lifting type_definition_DB

lift_definition emptyDB :: DB is "Map.empty"
  by simp

lift_definition insertEntry :: "string \<Rightarrow> string \<Rightarrow> DB \<Rightarrow> DB"
  is "\<lambda>key val m. if keyError key = None then m(key \<mapsto> val) else m"
  by (auto split: if_splits)

lift_definition removeEntry :: "string \<Rightarrow> DB \<Rightarrow> DB"
  is "\<lambda>key m. m(key := None)"
  by auto

text \<open>\<^verbatim>\<open>Txn.modify\<close>: the error an entry is refused with, if it is.\<close>

definition txn_modify :: "string \<Rightarrow> string \<Rightarrow> error option" where
  "txn_modify key val =
     (case keyError key of
        Some err \<Rightarrow> Some err
      | None \<Rightarrow>
          if ValueLogFileSize < length val then Some (ErrExceedsSize ''Value'') else None)"

definition txn_Get :: "string \<Rightarrow> DB \<Rightarrow> error + string" where
  "txn_Get key txn =
     (if length key = 0 then Inl ErrEmptyKey
      else (case entries txn key of None \<Rightarrow> Inl ErrKeyNotFound | Some val \<Rightarrow> Inr val))"

definition txn_Set :: "string \<Rightarrow> string \<Rightarrow> DB \<Rightarrow> (error + unit) \<times> DB" where
  "txn_Set key val txn =
     (case txn_modify key val of
        Some err \<Rightarrow> (Inl err, txn)
      | None \<Rightarrow> (Inr (), insertEntry key val txn))"

definition txn_Delete :: "string \<Rightarrow> DB \<Rightarrow> (error + unit) \<times> DB" where
  "txn_Delete key txn =
     (case txn_modify key [] of
        Some err \<Rightarrow> (Inl err, txn)
      | None \<Rightarrow> (Inr (), removeEntry key txn))"

definition db_Update :: "(DB \<Rightarrow> (error + unit) \<times> DB) \<Rightarrow> DB \<Rightarrow> (error + unit) \<times> DB" where
  "db_Update fn db =
     (case fn db of
        (Inl err, txn) \<Rightarrow> (Inl err, db)
      | (Inr u, txn) \<Rightarrow> (Inr u, txn))"

definition db_View :: "(DB \<Rightarrow> error + 'a) \<Rightarrow> DB \<Rightarrow> error + 'a" where
  "db_View fn db = fn db"

subsection \<open>The store operations of the server\<close>

definition storeValue :: "string \<Rightarrow> DataValue \<Rightarrow> DB \<Rightarrow> (error + unit) \<times> DB" where
  "storeValue key v db =
     db_Update (\<lambda>txn.
        case json_Marshal v of
          Inl err \<Rightarrow> (Inl err, txn)
        | Inr data \<Rightarrow> txn_Set key data txn) db"

definition deleteValue :: "string \<Rightarrow> DB \<Rightarrow> (error + unit) \<times> DB" where
  "deleteValue key db = db_Update (\<lambda>txn. txn_Delete key txn) db"

definition getValue :: "string \<Rightarrow> DB \<Rightarrow> (error + DataValue) \<times> DB" where
  "getValue key db =
     (db_View (\<lambda>txn.
        case txn_Get key txn of
          Inl err \<Rightarrow> Inl err
        | Inr val \<Rightarrow> json_Unmarshal val) db, db)"

text \<open>The sample data written at start-up, in the order of the listing (the keys
  differ, so the order of the writes does not show in the result).\<close>

definition samples :: "(string \<times> DataValue) list" where
  "samples =
     [(''alphabet/soup'',
       \<lparr>Content = ''Delicious alphabet soup recipe'', ContentType = ''text/plain'', Data = None\<rparr>),
      (''config/settings.json'',
       \<lparr>Content = ''{'' @ [dquote] @ ''theme'' @ [dquote] @ '': '' @ [dquote] @ ''dark'' @ [dquote]
                    @ '', '' @ [dquote] @ ''language'' @ [dquote] @ '': '' @ [dquote] @ ''en''
                    @ [dquote] @ ''}'',
        ContentType = ''application/json'', Data = None\<rparr>),
      (''docs/readme'',
       \<lparr>Content = ''# Welcome to the API'' @ [CHR 0x0A, CHR 0x0A] @ ''This is a sample readme file.'',
        ContentType = ''text/markdown'', Data = None\<rparr>)]"

fun initializeSampleData_loop :: "(string \<times> DataValue) list \<Rightarrow> DB \<Rightarrow> DB" where
  "initializeSampleData_loop [] db = db"
| "initializeSampleData_loop (kv # rest) db =
     initializeSampleData_loop rest (snd (storeValue (fst kv) (snd kv) db))"

definition initializeSampleData :: "DB \<Rightarrow> DB" where
  "initializeSampleData db = initializeSampleData_loop samples db"

subsection \<open>Requests and responses (package net/http)\<close>

record Request =
  Method :: string
  Vars :: "string \<rightharpoonup> string"
  Header :: "string \<rightharpoonup> string list"
  Body :: "error + string"

record ResponseWriter =
  w_header :: "string \<rightharpoonup> string list"
  w_status :: "nat option"
  w_body :: string

definition newResponseWriter :: ResponseWriter where
  "newResponseWriter = \<lparr>w_header = Map.empty, w_status = None, w_body = []\<rparr>"

definition StatusOK :: nat where
  "StatusOK = 200"

definition StatusBadRequest :: nat where
  "StatusBadRequest = 400"

definition StatusNotFound :: nat where
  "StatusNotFound = 404"

definition StatusMethodNotAllowed :: nat where
  "StatusMethodNotAllowed = 405"

definition StatusInternalServerError :: nat where
  "StatusInternalServerError = 500"

definition Header_Get :: "string \<Rightarrow> (string \<rightharpoonup> string list) \<Rightarrow> string" where
  "Header_Get key h = (case h key of None \<Rightarrow> [] | Some [] \<Rightarrow> [] | Some (v # _) \<Rightarrow> v)"

definition Header_Set :: "string \<Rightarrow> string \<Rightarrow> ResponseWriter \<Rightarrow> ResponseWriter" where
  "Header_Set key v w = w\<lparr>w_header := (w_header w)(key \<mapsto> [v])\<rparr>"

definition Header_Del :: "string \<Rightarrow> ResponseWriter \<Rightarrow> ResponseWriter" where
  "Header_Del key w = w\<lparr>w_header := (w_header w)(key := None)\<rparr>"

text \<open>The status line is written once: by the first \<open>WriteHeader\<close>, or as 200 by
  the first \<open>Write\<close>.\<close>

definition WriteHeader :: "nat \<Rightarrow> ResponseWriter \<Rightarrow> ResponseWriter" where
  "WriteHeader code w = (if w_status w = None then w\<lparr>w_status := Some code\<rparr> else w)"

definition Write :: "string \<Rightarrow> ResponseWriter \<Rightarrow> ResponseWriter" where
  "Write b w = (let w' = WriteHeader StatusOK w in w'\<lparr>w_body := w_body w' @ b\<rparr>)"

definition http_Error :: "string \<Rightarrow> nat \<Rightarrow> ResponseWriter \<Rightarrow> ResponseWriter" where
  "http_Error msg code w =
     Write (msg @ [CHR 0x0A])
       (WriteHeader code
          (Header_Set ''X-Content-Type-Options'' ''nosniff''
             (Header_Set ''Content-Type'' ''text/plain; charset=utf-8''
                (Header_Del ''Content-Length'' w))))"

text \<open>\<^verbatim>\<open>json.NewEncoder(w).Encode\<close> of a map of strings, given as its entries in
  the order of their keys: the object and a line feed.\<close>

fun encodeEntries :: "(string \<times> string) list \<Rightarrow> string" where
  "encodeEntries [] = []"
| "encodeEntries [kv] = appendString (fst kv) @ '':'' @ appendString (snd kv)"
| "encodeEntries (kv # rest) =
     appendString (fst kv) @ '':'' @ appendString (snd kv) @ '','' @ encodeEntries rest"

definition Encode :: "(string \<times> string) list \<Rightarrow> ResponseWriter \<Rightarrow> ResponseWriter" where
  "Encode kvs w = Write (''{'' @ encodeEntries kvs @ ''}'' @ [CHR 0x0A]) w"

text \<open>\<^verbatim>\<open>%d\<close> of a length.\<close>

fun itoa :: "nat \<Rightarrow> string" where
  "itoa n = (if n < 10 then [char_of (0x30 + n)] else itoa (n div 10) @ [char_of (0x30 + n mod 10)])"

definition len :: "string option \<Rightarrow> nat" where
  "len d = (case d of None \<Rightarrow> 0 | Some b \<Rightarrow> length b)"

definition bytesOf :: "string option \<Rightarrow> string" where
  "bytesOf d = (case d of None \<Rightarrow> [] | Some b \<Rightarrow> b)"

subsection \<open>The handlers\<close>

definition notFoundMessage :: "string \<Rightarrow> string" where
  "notFoundMessage path = ''Path '' @ [CHR 0x27] @ path @ [CHR 0x27] @ '' not found''"

definition handleGet :: "ResponseWriter \<Rightarrow> Request \<Rightarrow> string \<Rightarrow> DB \<Rightarrow> ResponseWriter \<times> DB" where
  "handleGet w r path db =
     (case getValue path db of
        (Inl err, db') \<Rightarrow>
          if err = ErrKeyNotFound then (http_Error (notFoundMessage path) StatusNotFound w, db')
          else (http_Error ''Database error'' StatusInternalServerError w, db')
      | (Inr v, db') \<Rightarrow>
          (let w1 = Header_Set ''Content-Type'' (ContentType v) w
           in if len (Data v) > 0 then (Write (bytesOf (Data v)) w1, db')
              else (Write (Content v) w1, db')))"

definition handlePost :: "ResponseWriter \<Rightarrow> Request \<Rightarrow> string \<Rightarrow> DB \<Rightarrow> ResponseWriter \<times> DB" where
  "handlePost w r path db =
     (case (case Body r of Inl err \<Rightarrow> Inl err | Inr b \<Rightarrow> json_Decode b) of
        Inl err \<Rightarrow> (http_Error ''Invalid JSON'' StatusBadRequest w, db)
      | Inr dataValue \<Rightarrow>
          if ContentType dataValue = [] then
            (http_Error ''content_type is required'' StatusBadRequest w, db)
          else
            (case storeValue path dataValue db of
               (Inl err, db') \<Rightarrow>
                 (http_Error ''Failed to store data'' StatusInternalServerError w, db')
             | (Inr u, db') \<Rightarrow>
                 (Encode [(''message'', ''Data stored at path: '' @ path),
                          (''status'', ''success'')]
                    (Header_Set ''Content-Type'' ''application/json'' w), db')))"

definition handlePut :: "ResponseWriter \<Rightarrow> Request \<Rightarrow> string \<Rightarrow> DB \<Rightarrow> ResponseWriter \<times> DB" where
  "handlePut w r path db =
     (case Body r of
        Inl err \<Rightarrow> (http_Error ''Failed to read body'' StatusBadRequest w, db)
      | Inr body \<Rightarrow>
          (let contentType = Header_Get ''Content-Type'' (Header r);
               contentType = (if contentType = [] then ''application/octet-stream''
                              else contentType);
               dataValue = \<lparr>Content = [], ContentType = contentType, Data = Some body\<rparr>
           in case storeValue path dataValue db of
                (Inl err, db') \<Rightarrow>
                  (http_Error ''Failed to store data'' StatusInternalServerError w, db')
              | (Inr u, db') \<Rightarrow>
                  (Encode [(''message'', ''Data stored at path: '' @ path),
                           (''size'', itoa (length body) @ '' bytes''),
                           (''status'', ''success'')]
                     (Header_Set ''Content-Type'' ''application/json'' w), db')))"

definition handleDelete :: "ResponseWriter \<Rightarrow> Request \<Rightarrow> string \<Rightarrow> DB \<Rightarrow> ResponseWriter \<times> DB" where
  "handleDelete w r path db =
     (case getValue path db of
        (Inl err, db') \<Rightarrow>
          if err = ErrKeyNotFound then (http_Error (notFoundMessage path) StatusNotFound w, db')
          else (http_Error ''Database error'' StatusInternalServerError w, db')
      | (Inr v, db') \<Rightarrow>
          (case deleteValue path db' of
             (Inl err, db'') \<Rightarrow>
               (http_Error ''Failed to delete data'' StatusInternalServerError w, db'')
           | (Inr u, db'') \<Rightarrow>
               (Encode [(''message'', ''Data deleted at path: '' @ path),
                        (''status'', ''success'')]
                  (Header_Set ''Content-Type'' ''application/json'' w), db'')))"

definition handlePath :: "ResponseWriter \<Rightarrow> Request \<Rightarrow> DB \<Rightarrow> ResponseWriter \<times> DB" where
  "handlePath w r db =
     (let path = (case Vars r ''path'' of None \<Rightarrow> [] | Some p \<Rightarrow> p)
      in if path = [] then (http_Error ''Path is required'' StatusBadRequest w, db)
         else if Method r = ''GET'' then handleGet w r path db
         else if Method r = ''POST'' then handlePost w r path db
         else if Method r = ''PUT'' then handlePut w r path db
         else if Method r = ''DELETE'' then handleDelete w r path db
         else (http_Error ''Method not allowed'' StatusMethodNotAllowed w, db))"

subsection \<open>Notions the properties are stated with\<close>

text \<open>Encoding a value and decoding the result, as a write followed by a read does.\<close>

definition roundTrip :: "DataValue \<Rightarrow> error + DataValue" where
  "roundTrip v = (case json_Marshal v of Inl err \<Rightarrow> Inl err | Inr data \<Rightarrow> json_Unmarshal data)"

text \<open>A value is valid when its two strings are well-formed UTF-8, as every string
  is that came out of a JSON request body.\<close>

definition validValue :: "DataValue \<Rightarrow> bool" where
  "validValue v = (ValidString (Content v) \<and> ValidString (ContentType v))"

definition absentIfEmpty :: "string option \<Rightarrow> string option" where
  "absentIfEmpty d = (if d = Some [] then None else d)"

text \<open>The ASCII bytes a string literal holds as they are, line breaks excluded.\<close>

definition plainChar :: "char \<Rightarrow> bool" where
  "plainChar c = (0x20 \<le> byte c \<and> byte c < 0x80 \<and> c \<noteq> dquote \<and> c \<noteq> bslash
                    \<and> c \<noteq> CHR 0x0A \<and> c \<noteq> CHR 0x0D)"

section \<open>Auxiliary facts\<close>

subsection \<open>UTF-8: encoding a decoded rune gives its bytes back\<close>

lemma mod_shift: "k < m \<Longrightarrow> (q * m + k) mod m = (k::nat)"
  by simp

lemma div_shift: "k < m \<Longrightarrow> (q * m + k) div m = (q::nat)"
  by simp

lemma byte_split:
  assumes "lo \<le> byte c" "byte c < lo + n"
  obtains k where "byte c = lo + k" "k < n" "c = char_of (lo + k)"
proof -
  have "byte c = lo + (byte c - lo)" "byte c - lo < n" using assms by auto
  moreover have "c = char_of (lo + (byte c - lo))" using assms by simp
  ultimately show ?thesis using that by blast
qed

lemma enc3:
  assumes "0xE0 \<le> byte c0" "byte c0 < 0xF0"
    and "acceptLo (byte c0) \<le> byte c1" "byte c1 \<le> acceptHi (byte c0)"
    and "0x80 \<le> byte c2" "byte c2 \<le> 0xBF"
  shows "EncodeRune ((byte c0 mod 16) * 4096 + (byte c1 mod 64) * 64 + byte c2 mod 64)
           = [c0, c1, c2]"
proof -
  obtain k where k: "byte c0 = 0xE0 + k" "k < 16" "c0 = char_of (0xE0 + k)"
    using byte_split[of "0xE0" c0 16] assms by auto
  have b1: "0x80 \<le> byte c1" "byte c1 \<le> 0xBF"
    using assms(3,4) by (auto simp add: acceptLo_def acceptHi_def split: if_splits)
  obtain j where j: "byte c1 = 0x80 + j" "j < 64" "c1 = char_of (0x80 + j)"
    using byte_split[of "0x80" c1 64] b1 by auto
  obtain i where i: "byte c2 = 0x80 + i" "i < 64" "c2 = char_of (0x80 + i)"
    using byte_split[of "0x80" c2 64] assms by auto
  have k0: "k = 0 \<Longrightarrow> 32 \<le> j"
    using assms(3) k j by (simp add: acceptLo_def)
  have k13: "k = 13 \<Longrightarrow> j < 32"
    using assms(4) k j by (simp add: acceptHi_def)
  have m0: "byte c0 mod 16 = k" using mod_shift[of k 16 14] k by simp
  have m1: "byte c1 mod 64 = j" using mod_shift[of j 64 2] j by simp
  have m2: "byte c2 mod 64 = i" using mod_shift[of i 64 2] i by simp
  define r where "r = k * 4096 + j * 64 + i"
  have r1: "r = k * 4096 + (j * 64 + i)" and r2: "r = (k * 64 + j) * 64 + i"
    by (simp_all add: r_def)
  have ji: "j * 64 + i < 4096" using j i by simp
  have d1: "r div 4096 = k" unfolding r1 using div_shift[OF ji] by simp
  have d2: "r div 64 = k * 64 + j" unfolding r2 using div_shift[of i 64] i by simp
  have d3: "(k * 64 + j) mod 64 = j" using mod_shift[of j 64 k] j by simp
  have d4: "r mod 64 = i" unfolding r2 by (rule mod_shift) (rule i(2))
  have lo: "\<not> r \<le> 0x7FF"
  proof (cases "k = 0")
    case True then show ?thesis using k0 by (simp add: r_def)
  next
    case False then show ?thesis by (simp add: r_def)
  qed
  have hi: "r \<le> 0xFFFF" using k j i by (simp add: r_def)
  have sur: "r < 0xD800 \<or> 0xDFFF < r"
  proof -
    consider "k \<le> 12" | "k = 13" | "14 \<le> k" by linarith
    then show ?thesis
    proof cases
      case 1 then show ?thesis using ji by (simp add: r1)
    next
      case 2 then show ?thesis using k13 i by (simp add: r_def)
    next
      case 3 then show ?thesis by (simp add: r_def)
    qed
  qed
  have "EncodeRune r = [c0, c1, c2]"
    using lo hi sur d1 d2 d3 d4 k(3) j(3) i(3) by (auto simp add: EncodeRune_def)
  then show ?thesis unfolding m0 m1 m2 r_def .
qed

lemma enc4:
  assumes "0xF0 \<le> byte c0" "byte c0 \<le> 0xF4"
    and "acceptLo (byte c0) \<le> byte c1" "byte c1 \<le> acceptHi (byte c0)"
    and "0x80 \<le> byte c2" "byte c2 \<le> 0xBF"
    and "0x80 \<le> byte c3" "byte c3 \<le> 0xBF"
  shows "EncodeRune ((byte c0 mod 8) * 262144 + (byte c1 mod 64) * 4096
                        + (byte c2 mod 64) * 64 + byte c3 mod 64)
           = [c0, c1, c2, c3]"
proof -
  obtain k where k: "byte c0 = 0xF0 + k" "k < 5" "c0 = char_of (0xF0 + k)"
    using byte_split[of "0xF0" c0 5] assms by auto
  have b1: "0x80 \<le> byte c1" "byte c1 \<le> 0xBF"
    using assms(3,4) by (auto simp add: acceptLo_def acceptHi_def split: if_splits)
  obtain j where j: "byte c1 = 0x80 + j" "j < 64" "c1 = char_of (0x80 + j)"
    using byte_split[of "0x80" c1 64] b1 by auto
  obtain i where i: "byte c2 = 0x80 + i" "i < 64" "c2 = char_of (0x80 + i)"
    using byte_split[of "0x80" c2 64] assms by auto
  obtain h where h: "byte c3 = 0x80 + h" "h < 64" "c3 = char_of (0x80 + h)"
    using byte_split[of "0x80" c3 64] assms by auto
  have k0: "k = 0 \<Longrightarrow> 16 \<le> j"
    using assms(3) k j by (simp add: acceptLo_def)
  have k4: "k = 4 \<Longrightarrow> j < 16"
    using assms(4) k j by (simp add: acceptHi_def)
  have m0: "byte c0 mod 8 = k" using mod_shift[of k 8 30] k by simp
  have m1: "byte c1 mod 64 = j" using mod_shift[of j 64 2] j by simp
  have m2: "byte c2 mod 64 = i" using mod_shift[of i 64 2] i by simp
  have m3: "byte c3 mod 64 = h" using mod_shift[of h 64 2] h by simp
  define r where "r = k * 262144 + j * 4096 + i * 64 + h"
  have r1: "r = k * 262144 + (j * 4096 + i * 64 + h)"
    and r2: "r = (k * 64 + j) * 4096 + (i * 64 + h)"
    and r3: "r = ((k * 64 + j) * 64 + i) * 64 + h"
    by (simp_all add: r_def)
  have ih: "i * 64 + h < 4096" using i h by simp
  have jih: "j * 4096 + i * 64 + h < 262144" using j i h by simp
  have d1: "r div 262144 = k" unfolding r1 using div_shift[OF jih] by simp
  have d2: "r div 4096 = k * 64 + j" unfolding r2 using div_shift[OF ih] by simp
  have d3: "(k * 64 + j) mod 64 = j" using mod_shift[of j 64 k] j by simp
  have d4: "r div 64 = (k * 64 + j) * 64 + i" unfolding r3 using div_shift[of h 64] h by simp
  have d5: "((k * 64 + j) * 64 + i) mod 64 = i" using mod_shift[of i 64 "k * 64 + j"] i by simp
  have d6: "r mod 64 = h" unfolding r3 by (rule mod_shift) (rule h(2))
  have lo: "\<not> r \<le> 0xFFFF"
  proof (cases "k = 0")
    case True then show ?thesis using k0 by (simp add: r_def)
  next
    case False then show ?thesis by (simp add: r_def)
  qed
  have hi: "\<not> 0x10FFFF < r"
  proof (cases "k = 4")
    case True then show ?thesis using k4 ih by (simp add: r_def)
  next
    case False
    then have "k \<le> 3" using k by simp
    then show ?thesis using jih by (simp add: r1)
  qed
  have "EncodeRune r = [c0, c1, c2, c3]"
    using lo hi d1 d2 d3 d4 d5 d6 k(3) j(3) i(3) h(3) by (simp add: EncodeRune_def)
  then show ?thesis unfolding m0 m1 m2 m3 r_def .
qed


lemma enc2:
  assumes "0xC2 \<le> byte c0" "byte c0 < 0xE0" "0x80 \<le> byte c1" "byte c1 \<le> 0xBF"
  shows "EncodeRune ((byte c0 mod 32) * 64 + byte c1 mod 64) = [c0, c1]"
proof -
  obtain k where k: "byte c0 = 0xC0 + k" "k < 32" "c0 = char_of (0xC0 + k)"
    using byte_split[of "0xC0" c0 32] assms by auto
  obtain j where j: "byte c1 = 0x80 + j" "j < 64" "c1 = char_of (0x80 + j)"
    using byte_split[of "0x80" c1 64] assms by auto
  have k2: "2 \<le> k" using assms k by simp
  have m0: "byte c0 mod 32 = k" using mod_shift[of k 32 6] k by simp
  have m1: "byte c1 mod 64 = j" using mod_shift[of j 64 2] j by simp
  have d: "(k * 64 + j) div 64 = k" "(k * 64 + j) mod 64 = j"
    using div_shift[of j 64 k] mod_shift[of j 64 k] j by simp_all
  have lo: "\<not> k * 64 + j \<le> 0x7F" using k2 by simp
  have hi: "k * 64 + j \<le> 0x7FF" using k j by simp
  show ?thesis
    unfolding m0 m1 using lo hi d k(3) j(3) by (simp add: EncodeRune_def)
qed

lemma DecodeRune_2:
  assumes "0xC2 \<le> byte c" "byte c < 0xE0" "DecodeRune (c # cs) = (r, sz)"
    and "\<not> (r = RuneError \<and> sz = 1)"
  shows "\<exists>c1 t. cs = c1 # t \<and> sz = 2 \<and> EncodeRune r = [c, c1]
            \<and> (\<forall>u. DecodeRune (c # c1 # u) = (r, sz))"
proof (cases cs)
  case Nil
  then show ?thesis using assms by (simp add: Let_def RuneError_def)
next
  case (Cons c1 t)
  have ok: "0x80 \<le> byte c1 \<and> byte c1 \<le> 0xBF"
    using assms Cons by (auto simp add: Let_def acceptLo_def acceptHi_def split: if_splits)
  have r: "r = (byte c mod 32) * 64 + byte c1 mod 64" "sz = 2"
    using assms ok Cons by (auto simp add: Let_def acceptLo_def acceptHi_def)
  show ?thesis
    using Cons r enc2[OF assms(1,2)] ok assms(1,2)
    by (simp add: Let_def acceptLo_def acceptHi_def)
qed

lemma DecodeRune_3:
  assumes "0xE0 \<le> byte c" "byte c < 0xF0" "DecodeRune (c # cs) = (r, sz)"
    and "\<not> (r = RuneError \<and> sz = 1)"
  shows "\<exists>c1 c2 t. cs = c1 # c2 # t \<and> sz = 3 \<and> EncodeRune r = [c, c1, c2]
            \<and> (\<forall>u. DecodeRune (c # c1 # c2 # u) = (r, sz))"
proof -
  obtain c1 c2 t where cs: "cs = c1 # c2 # t"
    using assms by (cases cs; cases "tl cs") (auto simp add: Let_def RuneError_def)
  have ok: "acceptLo (byte c) \<le> byte c1" "byte c1 \<le> acceptHi (byte c)"
      "0x80 \<le> byte c2" "byte c2 \<le> 0xBF"
    using assms cs by (auto simp add: Let_def split: if_splits)
  have r: "r = (byte c mod 16) * 4096 + (byte c1 mod 64) * 64 + byte c2 mod 64" "sz = 3"
    using assms ok cs by (auto simp add: Let_def)
  show ?thesis
    using cs r enc3[OF assms(1,2) ok] ok assms(1,2) by (simp add: Let_def)
qed

lemma DecodeRune_4:
  assumes "0xF0 \<le> byte c" "byte c \<le> 0xF4" "DecodeRune (c # cs) = (r, sz)"
    and "\<not> (r = RuneError \<and> sz = 1)"
  shows "\<exists>c1 c2 c3 t. cs = c1 # c2 # c3 # t \<and> sz = 4 \<and> EncodeRune r = [c, c1, c2, c3]
            \<and> (\<forall>u. DecodeRune (c # c1 # c2 # c3 # u) = (r, sz))"
proof -
  obtain c1 c2 c3 t where cs: "cs = c1 # c2 # c3 # t"
    using assms by (cases cs; cases "tl cs"; cases "tl (tl cs)") (auto simp add: Let_def RuneError_def)
  have ok: "acceptLo (byte c) \<le> byte c1" "byte c1 \<le> acceptHi (byte c)"
      "0x80 \<le> byte c2" "byte c2 \<le> 0xBF" "0x80 \<le> byte c3" "byte c3 \<le> 0xBF"
    using assms cs by (auto simp add: Let_def split: if_splits)
  have r: "r = (byte c mod 8) * 262144 + (byte c1 mod 64) * 4096
                 + (byte c2 mod 64) * 64 + byte c3 mod 64" "sz = 4"
    using assms ok cs by (auto simp add: Let_def)
  show ?thesis
    using cs r enc4[OF assms(1,2) ok] ok assms(1,2) by (simp add: Let_def)
qed

lemma DecodeRune_multi:
  assumes "0x80 \<le> byte c" "DecodeRune (c # cs) = (r, sz)" "\<not> (r = RuneError \<and> sz = 1)"
  shows "2 \<le> sz \<and> sz \<le> Suc (length cs) \<and> EncodeRune r = c # take (sz - 1) cs
           \<and> (\<forall>u. DecodeRune (c # take (sz - 1) cs @ u) = (r, sz))"
proof -
  have rng: "0xC2 \<le> byte c \<and> byte c \<le> 0xF4"
    using assms by (auto simp add: Let_def split: if_splits)
  consider "byte c < 0xE0" | "0xE0 \<le> byte c \<and> byte c < 0xF0" | "0xF0 \<le> byte c"
    by linarith
  then show ?thesis
  proof cases
    case 1
    then obtain c1 t where "cs = c1 # t" "sz = 2" "EncodeRune r = [c, c1]"
        "\<forall>u. DecodeRune (c # c1 # u) = (r, sz)"
      using DecodeRune_2[OF _ _ assms(2,3)] rng by blast
    then show ?thesis by (simp del: DecodeRune.simps)
  next
    case 2
    then obtain c1 c2 t where "cs = c1 # c2 # t" "sz = 3" "EncodeRune r = [c, c1, c2]"
        "\<forall>u. DecodeRune (c # c1 # c2 # u) = (r, sz)"
      using DecodeRune_3[OF _ _ assms(2,3)] by blast
    then show ?thesis by (simp del: DecodeRune.simps)
  next
    case 3
    then obtain c1 c2 c3 t where "cs = c1 # c2 # c3 # t" "sz = 4"
        "EncodeRune r = [c, c1, c2, c3]"
        "\<forall>u. DecodeRune (c # c1 # c2 # c3 # u) = (r, sz)"
      using DecodeRune_4[OF _ _ assms(2,3)] rng by blast
    then show ?thesis by (simp del: DecodeRune.simps)
  qed
qed

lemma DecodeRune_size_pos: "0 < snd (DecodeRune (c # cs))"
  by (simp add: Let_def)

subsection \<open>A string literal written by the encoder is read back\<close>

lemma hexVal_hex_all: "list_all (\<lambda>n. hexVal (hex ! n) = Some n) [0..<16]"
  by code_simp

lemma hexVal_hex: "n < 16 \<Longrightarrow> hexVal (hex ! n) = Some n"
  using hexVal_hex_all by (simp add: list_all_iff)

lemma stringLit_plain:
  assumes "0x20 \<le> byte c" "byte c < 0x80" "c \<noteq> dquote" "c \<noteq> bslash"
  shows "stringLit (c # X) = prepend [c] (stringLit X)"
  using assms by (simp add: RuneSelf_def)

lemma stringLit_escape:
  assumes "unescape e = Some b" "e \<noteq> CHR ''u''"
  shows "stringLit (bslash # e # X) = prepend [b] (stringLit X)"
  using assms by (simp add: dquote_def bslash_def)

lemma stringLit_u:
  assumes "getu4 (bslash # CHR ''u'' # h1 # h2 # h3 # h4 # X) = Some rr" "\<not> IsSurrogate rr"
  shows "stringLit (bslash # CHR ''u'' # h1 # h2 # h3 # h4 # X) = prepend (EncodeRune rr) (stringLit X)"
  using assms by (simp add: dquote_def bslash_def)

lemma stringLit_multi:
  assumes "0x80 \<le> byte c" "DecodeRune (c # X) = (rr, sz)"
  shows "stringLit (c # X) = prepend (EncodeRune rr) (stringLit (drop (sz - 1) X))"
proof -
  have "c \<noteq> dquote" "c \<noteq> bslash" using assms(1) by (auto simp add: dquote_def bslash_def)
  then show ?thesis using assms by (simp add: RuneSelf_def del: DecodeRune.simps)
qed


lemma prepend_Some: "prepend b (Some (t, rest)) = Some (b @ t, rest)"
  by (simp add: prepend_def)

lemma getu4_escape:
  assumes "a < 16" "b < 16" "e < 16" "d < 16"
  shows "getu4 (bslash # CHR ''u'' # hex ! a # hex ! b # hex ! e # hex ! d # X)
           = Some (((a * 16 + b) * 16 + e) * 16 + d)"
  using assms by (simp add: getu4_def hexVal_hex)

lemma hex_0: "hex ! 0 = CHR ''0''" and hex_2: "hex ! 2 = CHR ''2''"
  and hex_f: "hex ! 15 = CHR ''f''" and hex_d: "hex ! 13 = CHR ''d''"
  by (simp_all add: hex_def)

lemma escapeByte_decodes:
  assumes "byte c < 0x80" "\<not> htmlSafeSet c"
  shows "stringLit (escapeByte c @ X) = prepend [c] (stringLit X)"
proof -
  consider "c = bslash \<or> c = dquote" | "c = CHR 0x08" | "c = CHR 0x0C" | "c = CHR 0x0A"
    | "c = CHR 0x0D" | "c = CHR 0x09"
    | "c \<noteq> bslash" "c \<noteq> dquote" "c \<noteq> CHR 0x08" "c \<noteq> CHR 0x0C" "c \<noteq> CHR 0x0A"
      "c \<noteq> CHR 0x0D" "c \<noteq> CHR 0x09"
    by blast
  then show ?thesis
  proof cases
    case 1
    then have "unescape c = Some c" "c \<noteq> CHR ''u''"
      by (auto simp add: unescape_def bslash_def dquote_def)
    then show ?thesis using 1 stringLit_escape[of c c X] by (auto simp add: escapeByte_def)
  next
    case 2
    then show ?thesis
      using stringLit_escape[of "CHR ''b''" c X]
      by (simp add: escapeByte_def unescape_def bslash_def dquote_def)
  next
    case 3
    then show ?thesis
      using stringLit_escape[of "CHR ''f''" c X]
      by (simp add: escapeByte_def unescape_def bslash_def dquote_def)
  next
    case 4
    then show ?thesis
      using stringLit_escape[of "CHR ''n''" c X]
      by (simp add: escapeByte_def unescape_def bslash_def dquote_def)
  next
    case 5
    then show ?thesis
      using stringLit_escape[of "CHR ''r''" c X]
      by (simp add: escapeByte_def unescape_def bslash_def dquote_def)
  next
    case 6
    then show ?thesis
      using stringLit_escape[of "CHR ''t''" c X]
      by (simp add: escapeByte_def unescape_def bslash_def dquote_def)
  next
    case 7
    have lt: "byte c div 16 < 16" "byte c mod 16 < 16"
      using assms(1) by simp_all
    have g: "getu4 (bslash # CHR ''u'' # hex ! 0 # hex ! 0 # hex ! (byte c div 16)
                      # hex ! (byte c mod 16) # X) = Some (byte c)"
      using getu4_escape[of 0 0 "byte c div 16" "byte c mod 16" X] lt by simp
    have ns: "\<not> IsSurrogate (byte c)"
      using assms(1) by (simp add: IsSurrogate_def)
    have en: "EncodeRune (byte c) = [c]"
      using assms(1) by (simp add: EncodeRune_def)
    have "escapeByte c = [bslash, CHR ''u'', hex ! 0, hex ! 0, hex ! (byte c div 16),
                          hex ! (byte c mod 16)]"
      using 7 by (simp add: escapeByte_def hex_0)
    then show ?thesis using stringLit_u[OF g ns] en by simp
  qed
qed

lemma stringLit_appendString_loop:
  "stringLit (appendString_loop s @ dquote # rest) = Some (coerceUTF8 s, rest)"
proof (induction "length s" arbitrary: s rule: less_induct)
  case less
  show ?case
  proof (cases s)
    case Nil
    then show ?thesis by simp
  next
    case (Cons c cs)
    have ih: "\<And>t. length t \<le> length cs \<Longrightarrow>
                stringLit (appendString_loop t @ dquote # rest) = Some (coerceUTF8 t, rest)"
      using less Cons by simp
    show ?thesis
    proof (cases "byte c < 0x80")
      case True
      have co: "coerceUTF8 (c # cs) = c # coerceUTF8 cs"
        using True by (simp add: RuneError_def)
      show ?thesis
      proof (cases "htmlSafeSet c")
        case safe: True
        then have "stringLit (c # appendString_loop cs @ dquote # rest)
                     = prepend [c] (stringLit (appendString_loop cs @ dquote # rest))"
          by (intro stringLit_plain) (simp_all add: htmlSafeSet_def)
        then show ?thesis
          using True safe Cons co ih[of cs] by (simp add: prepend_Some RuneSelf_def)
      next
        case unsafe: False
        show ?thesis
          using True unsafe Cons co ih[of cs] escapeByte_decodes[OF True unsafe]
          by (simp add: prepend_Some RuneSelf_def)
      qed
    next
      case False
      then have hi: "0x80 \<le> byte c" by simp
      obtain r sz where d: "DecodeRune (c # cs) = (r, sz)" by fastforce
      show ?thesis
      proof (cases "r = RuneError \<and> sz = 1")
        case True
        have g: "getu4 (bslash # CHR ''u'' # hex ! 15 # hex ! 15 # hex ! 15 # hex ! 13
                         # appendString_loop cs @ dquote # rest) = Some RuneError"
          using getu4_escape[of 15 15 15 13] by (simp add: RuneError_def)
        have ns: "\<not> IsSurrogate RuneError" by (simp add: IsSurrogate_def RuneError_def)
        have lp: "appendString_loop (c # cs)
                    = [bslash, CHR ''u'', hex ! 15, hex ! 15, hex ! 15, hex ! 13]
                        @ appendString_loop cs"
          using False True d by (simp add: RuneSelf_def hex_f hex_d del: DecodeRune.simps)
        have co: "coerceUTF8 (c # cs) = EncodeRune RuneError @ coerceUTF8 cs"
          using True d by (simp del: DecodeRune.simps)
        show ?thesis
          unfolding Cons lp co using stringLit_u[OF g ns] ih[of cs]
          by (simp add: prepend_Some)
      next
        case valid: False
        have m: "2 \<le> sz" "sz \<le> Suc (length cs)" "EncodeRune r = c # take (sz - 1) cs"
            "\<And>u. DecodeRune (c # take (sz - 1) cs @ u) = (r, sz)"
          using DecodeRune_multi[OF hi d valid] by auto
        have co: "coerceUTF8 (c # cs) = (c # take (sz - 1) cs) @ coerceUTF8 (drop (sz - 1) cs)"
          using valid d m(1) by (cases sz) (auto simp del: DecodeRune.simps)
        have ih': "stringLit (appendString_loop (drop (sz - 1) cs) @ dquote # rest)
                     = Some (coerceUTF8 (drop (sz - 1) cs), rest)"
          by (rule ih) simp
        have len: "length (take (sz - 1) cs) = sz - 1" using m(2) by simp
        show ?thesis
        proof (cases "r = 0x2028 \<or> r = 0x2029")
          case True
          then have r16: "r mod 16 < 16" "((2 * 16 + 0) * 16 + 2) * 16 + r mod 16 = r"
            by auto
          have g: "getu4 (bslash # CHR ''u'' # hex ! 2 # hex ! 0 # hex ! 2 # hex ! (r mod 16)
                         # appendString_loop (drop (sz - 1) cs) @ dquote # rest) = Some r"
            using getu4_escape[of 2 0 2 "r mod 16"] r16 by simp
          have ns: "\<not> IsSurrogate r" using True by (auto simp add: IsSurrogate_def)
          have lp: "appendString_loop (c # cs)
                      = [bslash, CHR ''u'', hex ! 2, hex ! 0, hex ! 2, hex ! (r mod 16)]
                          @ appendString_loop (drop (sz - 1) cs)"
            using False True valid d
            by (auto simp add: RuneSelf_def hex_0 hex_2 simp del: DecodeRune.simps)
          show ?thesis
            unfolding Cons lp co using stringLit_u[OF g ns] ih' m(3)
            by (simp add: prepend_Some)
        next
          case other: False
          have lp: "appendString_loop (c # cs)
                      = (c # take (sz - 1) cs) @ appendString_loop (drop (sz - 1) cs)"
            using False other valid d m(1)
            by (cases sz) (auto simp add: RuneSelf_def simp del: DecodeRune.simps)
          have "stringLit (c # take (sz - 1) cs
                            @ appendString_loop (drop (sz - 1) cs) @ dquote # rest)
                  = prepend (EncodeRune r)
                      (stringLit (drop (sz - 1) (take (sz - 1) cs
                            @ appendString_loop (drop (sz - 1) cs) @ dquote # rest)))"
            by (rule stringLit_multi[OF hi]) (rule m(4))
          then show ?thesis
            unfolding Cons lp co using ih' m(3) len
            by (simp add: prepend_Some)
        qed
      qed
    qed
  qed
qed

lemma coerceUTF8_valid: "ValidString s \<Longrightarrow> coerceUTF8 s = s"
proof (induction "length s" arbitrary: s rule: less_induct)
  case less
  show ?case
  proof (cases s)
    case Nil
    then show ?thesis by simp
  next
    case (Cons c cs)
    obtain r sz where d: "DecodeRune (c # cs) = (r, sz)" by fastforce
    have v: "\<not> (r = RuneError \<and> sz = 1)" "ValidString (drop (sz - 1) cs)"
      using less(2) Cons d by (auto simp del: DecodeRune.simps)
    have ih: "coerceUTF8 (drop (sz - 1) cs) = drop (sz - 1) cs"
      using less(1)[of "drop (sz - 1) cs"] v(2) Cons by simp
    have pos: "0 < sz" using DecodeRune_size_pos[of c cs] d by simp
    have "coerceUTF8 (c # cs) = take sz (c # cs) @ drop (sz - 1) cs"
      using d v(1) ih by (auto simp del: DecodeRune.simps)
    also have "\<dots> = c # cs" using pos by (cases sz) auto
    finally show ?thesis using Cons by simp
  qed
qed

subsection \<open>Base64\<close>

lemma eq_char_of: "(c = char_of (n::nat)) = (byte c = n mod 256)"
  by (metis char_of_char of_char_of)

lemma encodeStd_ranges:
  "encodeStd = map char_of [65..<91::nat] @ map char_of [97..<123::nat]
                 @ map char_of [48..<58::nat] @ ''+/''"
  by (simp add: encodeStd_def upt_rec eq_char_of)

lemma encodeStd_nth:
  assumes "n < 64"
  shows "encodeStd ! n = (if n < 26 then char_of (65 + n) else if n < 52 then char_of (71 + n)
                          else if n < 62 then char_of (n - 4) else if n = 62 then CHR ''+''
                          else CHR ''/'')"
proof -
  consider "n < 26" | "26 \<le> n" "n < 52" | "52 \<le> n" "n < 62" | "n = 62" | "n = 63"
    using assms by linarith
  then show ?thesis
  proof cases
    case 1
    then show ?thesis unfolding encodeStd_ranges
      by (simp add: nth_append del: upt_rec_numeral)
  next
    case 2
    then have "97 + (n - 26) = 71 + n" "n - 26 < 26" by simp_all
    then show ?thesis using 2 unfolding encodeStd_ranges
      by (simp add: nth_append del: upt_rec_numeral)
  next
    case 3
    then have "48 + (n - 52) = n - 4" "n - 52 < 10" "\<not> n - 26 < 26" "n - 26 - 26 = n - 52"
      by simp_all
    then show ?thesis using 3 unfolding encodeStd_ranges
      by (simp add: nth_append del: upt_rec_numeral)
  next
    case 4
    then show ?thesis unfolding encodeStd_ranges
      by (simp add: nth_append del: upt_rec_numeral)
  next
    case 5
    then show ?thesis unfolding encodeStd_ranges
      by (simp add: nth_append del: upt_rec_numeral)
  qed
qed

lemma char_of_eq_small: "m < 256 \<Longrightarrow> (char_of (m::nat) = c) = (m = byte c)"
  by (auto simp add: eq_char_of[symmetric])

lemma decodeMap_encodeStd: "n < 64 \<Longrightarrow> decodeMap (encodeStd ! n) = Some n"
  by (auto simp add: encodeStd_nth decodeMap_def)

lemma plainChar_encodeStd: "n < 64 \<Longrightarrow> plainChar (encodeStd ! n)"
  by (auto simp add: encodeStd_nth plainChar_def dquote_def bslash_def char_of_eq_small)

lemma plainChar_pad: "plainChar (CHR ''='')"
  by (simp add: plainChar_def dquote_def bslash_def)

lemma decodeMap_pad: "decodeMap (CHR ''='') = None"
  by (simp add: decodeMap_def)

lemma sextets:
  fixes a b c :: nat
  assumes "a < 256" "b < 256" "c < 256"
  shows "a div 4 < 64" "a mod 4 * 16 + b div 16 < 64" "b mod 16 * 4 + c div 64 < 64"
    "c mod 64 < 64" "a mod 4 * 16 < 64" "b mod 16 * 4 < 64"
  using assms by (auto simp add: less_mult_imp_div_less)

lemma join1: "(a::nat) div 4 * 4 + (a mod 4 * 16 + b div 16) div 16 = a" if "b < 256"
proof -
  have "b div 16 < 16" using that by simp
  then have "(a mod 4 * 16 + b div 16) div 16 = a mod 4"
    using div_shift[of "b div 16" 16 "a mod 4"] by simp
  then show ?thesis by simp
qed

lemma join1': "(a::nat) div 4 * 4 + (a mod 4 * 16) div 16 = a"
  by simp

lemma join2: "((a::nat) mod 4 * 16 + b div 16) mod 16 * 16 + (b mod 16 * 4 + c div 64) div 4 = b"
  if "b < 256" "c < 256"
proof -
  have b16: "b div 16 < 16" using that by simp
  have c64: "c div 64 < 4" using that by simp
  have "(a mod 4 * 16 + b div 16) mod 16 = b div 16"
    using mod_shift[OF b16, of "a mod 4"] by simp
  moreover have "(b mod 16 * 4 + c div 64) div 4 = b mod 16"
    using div_shift[OF c64, of "b mod 16"] by simp
  ultimately show ?thesis by simp
qed

lemma join2': "((a::nat) mod 4 * 16 + b div 16) mod 16 * 16 + (b mod 16 * 4) div 4 = b"
  if "b < 256"
  using join2[of b 0 a] that by simp

lemma join3: "((b::nat) mod 16 * 4 + c div 64) mod 4 * 64 + c mod 64 = c" if "c < 256"
proof -
  have c64: "c div 64 < 4" using that by simp
  have "(b mod 16 * 4 + c div 64) mod 4 = c div 64"
    using mod_shift[OF c64, of "b mod 16"] by simp
  then show ?thesis by simp
qed

lemma decodeQuanta_b64Encode: "decodeQuanta (b64Encode bs) = Some bs"
proof (induction bs rule: b64Encode.induct)
  case 1
  then show ?case by simp
next
  case (2 a)
  have s: "byte a div 4 < 64" "byte a mod 4 * 16 < 64"
    using sextets[of "byte a" 0 0] by simp_all
  show ?case
    using join1'[of "byte a"]
    by (simp add: decodeMap_encodeStd[OF s(1)] decodeMap_encodeStd[OF s(2)] decodeMap_pad)
next
  case (3 a b)
  have s: "byte a div 4 < 64" "byte a mod 4 * 16 + byte b div 16 < 64" "byte b mod 16 * 4 < 64"
    using sextets[of "byte a" "byte b" 0] by simp_all
  show ?case
    using join1[of "byte b" "byte a"] join2'[of "byte b" "byte a"]
    by (simp add: decodeMap_encodeStd[OF s(1)] decodeMap_encodeStd[OF s(2)]
          decodeMap_encodeStd[OF s(3)] decodeMap_pad)
next
  case (4 a b c rest)
  have s: "byte a div 4 < 64" "byte a mod 4 * 16 + byte b div 16 < 64"
      "byte b mod 16 * 4 + byte c div 64 < 64" "byte c mod 64 < 64"
    using sextets[of "byte a" "byte b" "byte c"] by simp_all
  show ?case
    using 4 join1[of "byte b" "byte a"] join2[of "byte b" "byte c" "byte a"]
      join3[of "byte c" "byte b"]
    by (simp add: decodeMap_encodeStd[OF s(1)] decodeMap_encodeStd[OF s(2)]
          decodeMap_encodeStd[OF s(3)] decodeMap_encodeStd[OF s(4)])
qed

lemma plainChar_b64Encode: "c \<in> set (b64Encode bs) \<Longrightarrow> plainChar c"
proof (induction bs rule: b64Encode.induct)
  case 1
  then show ?case by simp
next
  case (2 a)
  then show ?case
    using sextets[of "byte a" 0 0] by (auto simp add: plainChar_encodeStd plainChar_pad)
next
  case (3 a b)
  then show ?case
    using sextets[of "byte a" "byte b" 0] by (auto simp add: plainChar_encodeStd plainChar_pad)
next
  case (4 a b c rest)
  then show ?case
    using sextets[of "byte a" "byte b" "byte c"] by (auto simp add: plainChar_encodeStd)
qed

lemma b64Decode_b64Encode: "b64Decode (b64Encode bs) = Some bs"
proof -
  have "filter (\<lambda>c. c \<noteq> CHR 0x0A \<and> c \<noteq> CHR 0x0D) (b64Encode bs) = b64Encode bs"
    using plainChar_b64Encode[of _ bs] by (auto simp add: plainChar_def filter_id_conv)
  then show ?thesis by (simp add: b64Decode_def decodeQuanta_b64Encode)
qed

lemma stringLit_plainChars:
  "\<forall>c \<in> set s. plainChar c \<Longrightarrow> stringLit (s @ dquote # rest) = Some (s, rest)"
proof (induction s)
  case Nil
  then show ?case by simp
next
  case (Cons c s)
  then have "stringLit (c # s @ dquote # rest) = prepend [c] (stringLit (s @ dquote # rest))"
    by (intro stringLit_plain) (simp_all add: plainChar_def)
  then show ?case using Cons by (simp add: prepend_Some)
qed

subsection \<open>The document written for a value is parsed into its fields\<close>

lemma skipSpace_nonspace: "\<not> isSpace c \<Longrightarrow> skipSpace (c # s) = c # s"
  by (simp add: skipSpace_def)

lemma skipSpace_Nil: "skipSpace [] = []"
  by (simp add: skipSpace_def)

lemma not_isSpace: "\<not> isSpace dquote" "\<not> isSpace (CHR '':'')" "\<not> isSpace (CHR '','')"
  "\<not> isSpace (CHR ''}'')" "\<not> isSpace (CHR ''{'')"
  by (simp_all add: isSpace_def dquote_def)

lemma dquote_neq: "dquote \<noteq> CHR ''{''" "dquote \<noteq> CHR ''[''" "dquote \<noteq> CHR ''}''"
  by (simp_all add: dquote_def)

lemma parseValue_string:
  assumes "stringLit t = Some (sv, r)"
  shows "parseValue (Suc n) d (dquote # t) = Some (JString sv, r)"
  using assms by (simp add: skipSpace_nonspace not_isSpace dquote_neq del: stringLit.simps)

lemma parseObject_member:
  assumes "stringLit t = Some (k, CHR '':'' # dquote # t2)"
    and "stringLit t2 = Some (sv, c3 # r4)"
    and "\<not> isSpace c3"
  shows "parseObject (Suc (Suc n)) d acc (dquote # t)
           = (if c3 = CHR '','' then parseObject (Suc n) d (acc @ [(k, JString sv)]) r4
              else if c3 = CHR ''}'' then Some (JObject (acc @ [(k, JString sv)]), r4)
              else None)"
  using assms parseValue_string[OF assms(2), of n d]
  by (simp add: skipSpace_nonspace not_isSpace del: stringLit.simps parseValue.simps)

lemma parseValue_object:
  "parseValue (Suc n) 0 (CHR ''{'' # dquote # t) = parseObject n (Suc 0) [] (dquote # t)"
  by (simp add: skipSpace_nonspace not_isSpace maxNestingDepth_def dquote_neq
        del: stringLit.simps)

lemma key_content: "coerceUTF8 ''content'' = ''content''"
  and key_content_type: "coerceUTF8 ''content_type'' = ''content_type''"
  and key_data: "coerceUTF8 ''data'' = ''data''"
  by (simp_all add: RuneError_def)

lemma parse_marshal_nodata:
  "parseValue (Suc (Suc (Suc (Suc (Suc n))))) 0
     (CHR ''{'' # dquote # appendString_loop ''content'' @ dquote # CHR '':'' # dquote
        # appendString_loop c @ dquote # CHR '','' # dquote
        # appendString_loop ''content_type'' @ dquote # CHR '':'' # dquote
        # appendString_loop ct @ dquote # CHR ''}'' # rest)
   = Some (JObject [(''content'', JString (coerceUTF8 c)),
                    (''content_type'', JString (coerceUTF8 ct))], rest)"
  apply (subst parseValue_object)
  apply (subst parseObject_member[OF stringLit_appendString_loop stringLit_appendString_loop])
   apply (simp add: not_isSpace del: parseObject.simps parseValue.simps stringLit.simps appendString_loop.simps coerceUTF8.simps b64Encode.simps)
  apply (simp only: if_True simp_thms append_Nil append_Cons)
  apply (subst parseObject_member[OF stringLit_appendString_loop stringLit_appendString_loop])
   apply (simp add: not_isSpace del: parseObject.simps parseValue.simps stringLit.simps appendString_loop.simps coerceUTF8.simps b64Encode.simps)
  apply (simp add: key_content key_content_type del: parseObject.simps parseValue.simps stringLit.simps appendString_loop.simps coerceUTF8.simps b64Encode.simps)
  done

lemma parse_marshal_data:
  "parseValue (Suc (Suc (Suc (Suc (Suc n))))) 0
     (CHR ''{'' # dquote # appendString_loop ''content'' @ dquote # CHR '':'' # dquote
        # appendString_loop c @ dquote # CHR '','' # dquote
        # appendString_loop ''content_type'' @ dquote # CHR '':'' # dquote
        # appendString_loop ct @ dquote # CHR '','' # dquote
        # appendString_loop ''data'' @ dquote # CHR '':'' # dquote
        # b64Encode b @ dquote # CHR ''}'' # rest)
   = Some (JObject [(''content'', JString (coerceUTF8 c)),
                    (''content_type'', JString (coerceUTF8 ct)),
                    (''data'', JString (b64Encode b))], rest)"
  apply (subst parseValue_object)
  apply (subst parseObject_member[OF stringLit_appendString_loop stringLit_appendString_loop])
   apply (simp add: not_isSpace del: parseObject.simps parseValue.simps stringLit.simps appendString_loop.simps coerceUTF8.simps b64Encode.simps)
  apply (simp only: if_True simp_thms append_Nil append_Cons)
  apply (subst parseObject_member[OF stringLit_appendString_loop stringLit_appendString_loop])
   apply (simp add: not_isSpace del: parseObject.simps parseValue.simps stringLit.simps appendString_loop.simps coerceUTF8.simps b64Encode.simps)
  apply (simp only: if_True simp_thms append_Nil append_Cons)
  apply (subst parseObject_member[OF stringLit_appendString_loop stringLit_plainChars])
    apply (simp add: plainChar_b64Encode del: parseObject.simps parseValue.simps stringLit.simps appendString_loop.simps coerceUTF8.simps b64Encode.simps)
   apply (simp add: not_isSpace del: parseObject.simps parseValue.simps stringLit.simps appendString_loop.simps coerceUTF8.simps b64Encode.simps)
  apply (simp add: key_content key_content_type key_data del: parseObject.simps parseValue.simps stringLit.simps appendString_loop.simps coerceUTF8.simps b64Encode.simps)
  done

lemma fuel_ge5:
  assumes "2 \<le> length s"
  obtains n where "fuelFor s = Suc (Suc (Suc (Suc (Suc n))))"
proof -
  have "fuelFor s = Suc (Suc (Suc (Suc (Suc (fuelFor s - 5)))))"
    using assms by (simp add: fuelFor_def)
  then show ?thesis using that by blast
qed

lemma store_nodata:
  "unmarshalValue (JObject [(''content'', JString c), (''content_type'', JString ct)]) zeroValue
     = Inr \<lparr>Content = c, ContentType = ct, Data = None\<rparr>"
  by (simp add: storeField_def fieldByName_def zeroValue_def)

lemma store_data:
  "unmarshalValue (JObject [(''content'', JString c), (''content_type'', JString ct),
                             (''data'', JString (b64Encode b))]) zeroValue
     = Inr \<lparr>Content = c, ContentType = ct, Data = Some b\<rparr>"
  by (simp add: storeField_def fieldByName_def zeroValue_def b64Decode_b64Encode
        del: b64Encode.simps)

lemma json_Unmarshal_json_Marshal:
  assumes "json_Marshal v = Inr data"
  shows "json_Unmarshal data
           = Inr \<lparr>Content = coerceUTF8 (Content v), ContentType = coerceUTF8 (ContentType v),
                  Data = (if isEmptyValue (Data v) then None else Data v)\<rparr>"
proof (cases "isEmptyValue (Data v)")
  case True
  have data: "data = CHR ''{'' # dquote # appendString_loop ''content'' @ dquote # CHR '':'' # dquote
        # appendString_loop (Content v) @ dquote # CHR '','' # dquote
        # appendString_loop ''content_type'' @ dquote # CHR '':'' # dquote
        # appendString_loop (ContentType v) @ dquote # CHR ''}'' # []"
    using assms True by (simp add: json_Marshal_def appendString_def del: appendString_loop.simps)
  have "2 \<le> length data" by (subst data) simp
  then obtain n where n: "fuelFor data = Suc (Suc (Suc (Suc (Suc n))))"
    by (rule fuel_ge5)
  have "parseValue (fuelFor data) 0 data
          = Some (JObject [(''content'', JString (coerceUTF8 (Content v))),
                           (''content_type'', JString (coerceUTF8 (ContentType v)))], [])"
    unfolding n by (subst data) (rule parse_marshal_nodata)
  then show ?thesis
    using True by (simp add: json_Unmarshal_def parseDocument_def skipSpace_Nil store_nodata
          del: unmarshalValue.simps)
next
  case False
  then obtain b where b: "Data v = Some b" "b \<noteq> []"
    by (auto simp add: isEmptyValue_def split: option.splits)
  have data: "data = CHR ''{'' # dquote # appendString_loop ''content'' @ dquote # CHR '':'' # dquote
        # appendString_loop (Content v) @ dquote # CHR '','' # dquote
        # appendString_loop ''content_type'' @ dquote # CHR '':'' # dquote
        # appendString_loop (ContentType v) @ dquote # CHR '','' # dquote
        # appendString_loop ''data'' @ dquote # CHR '':'' # dquote
        # b64Encode b @ dquote # CHR ''}'' # []"
    using assms False b
    by (simp add: json_Marshal_def appendString_def encodeByteSlice_def
          del: appendString_loop.simps b64Encode.simps)
  have "2 \<le> length data" by (subst data) simp
  then obtain n where n: "fuelFor data = Suc (Suc (Suc (Suc (Suc n))))"
    by (rule fuel_ge5)
  have "parseValue (fuelFor data) 0 data
          = Some (JObject [(''content'', JString (coerceUTF8 (Content v))),
                           (''content_type'', JString (coerceUTF8 (ContentType v))),
                           (''data'', JString (b64Encode b))], [])"
    unfolding n by (subst data) (rule parse_marshal_data)
  then show ?thesis
    using False b by (simp add: json_Unmarshal_def parseDocument_def skipSpace_Nil store_data
          del: unmarshalValue.simps b64Encode.simps)
qed

subsection \<open>The fuel of the parser is enough\<close>

text \<open>A parse that succeeds with some fuel succeeds with the fuel \<open>fuelFor\<close> gives,
  and with the same result: the bound never cuts a parse short.\<close>

lemma prepend_SomeD:
  "prepend b res = Some (t, r) \<Longrightarrow> \<exists>t'. res = Some (t', r) \<and> t = b @ t'"
  by (auto simp add: prepend_def split: option.splits)

lemma stringLit_step:
  assumes "stringLit (c # cs) = Some (t, r)"
  shows "(c = dquote \<and> r = cs)
       \<or> (\<exists>u b. length u \<le> length cs \<and> prepend b (stringLit u) = Some (t, r))"
proof (cases "c = dquote")
  case True
  then show ?thesis using assms by simp
next
  case nq: False
  show ?thesis
  proof (cases "c = bslash")
    case bs: True
    show ?thesis
    proof (cases cs)
      case Nil
      then show ?thesis using assms nq bs by simp
    next
      case (Cons e cs')
      show ?thesis
      proof (cases "e = CHR ''u''")
        case u: True
        show ?thesis
        proof (cases "getu4 (c # cs)")
          case None
          then show ?thesis using assms nq bs Cons u by simp
        next
          case (Some rr)
          have "prepend (EncodeRune (utf16_DecodeRune rr (getu4 (drop 5 cs))))
                  (stringLit (drop 11 cs)) = Some (t, r)
                \<or> prepend (EncodeRune RuneError) (stringLit (drop 5 cs)) = Some (t, r)
                \<or> prepend (EncodeRune rr) (stringLit (drop 5 cs)) = Some (t, r)"
            using assms nq bs u Some unfolding Cons
            by (simp add: Let_def split: if_splits)
          moreover have "length (drop 11 cs) \<le> length cs" "length (drop 5 cs) \<le> length cs"
            by simp_all
          ultimately show ?thesis by blast
        qed
      next
        case nu: False
        show ?thesis
        proof (cases "unescape e")
          case None
          then show ?thesis using assms nq bs Cons nu by simp
        next
          case (Some b)
          then have "prepend [b] (stringLit cs') = Some (t, r)"
            using assms nq bs Cons nu by simp
          moreover have "length cs' \<le> length cs" using Cons by simp
          ultimately show ?thesis by blast
        qed
      qed
    qed
  next
    case nb: False
    show ?thesis
    proof (cases "byte c < 0x20")
      case True
      then show ?thesis using assms nq nb by simp
    next
      case ge: False
      show ?thesis
      proof (cases "byte c < RuneSelf")
        case True
        then have "prepend [c] (stringLit cs) = Some (t, r)"
          using assms nq nb ge by simp
        then show ?thesis by blast
      next
        case False
        obtain rr sz where d: "DecodeRune (c # cs) = (rr, sz)" by fastforce
        have "prepend (EncodeRune rr) (stringLit (drop (sz - 1) cs)) = Some (t, r)"
          using assms nq nb ge False d by (simp del: DecodeRune.simps)
        moreover have "length (drop (sz - 1) cs) \<le> length cs" by simp
        ultimately show ?thesis by blast
      qed
    qed
  qed
qed

lemma stringLit_length: "stringLit s = Some (t, r) \<Longrightarrow> length r < length s"
proof (induction "length s" arbitrary: s t r rule: less_induct)
  case less
  show ?case
  proof (cases s)
    case Nil
    then show ?thesis using less(2) by simp
  next
    case (Cons c cs)
    from stringLit_step[OF less(2)[unfolded Cons]]
    show ?thesis
    proof
      assume "c = dquote \<and> r = cs"
      then show ?thesis using Cons by simp
    next
      assume "\<exists>u b. length u \<le> length cs \<and> prepend b (stringLit u) = Some (t, r)"
      then obtain u b where u: "length u \<le> length cs" "prepend b (stringLit u) = Some (t, r)"
        by blast
      then obtain t' where "stringLit u = Some (t', r)" using prepend_SomeD by blast
      then have "length r < length u" using less(1)[of u t' r] u(1) Cons by simp
      then show ?thesis using u(1) Cons by simp
    qed
  qed
qed

lemma skipSpace_length: "length (skipSpace s) \<le> length s"
  by (simp add: skipSpace_def length_dropWhile_le)

lemma len_dropWhile: "length xs \<le> n \<Longrightarrow> length (dropWhile P xs) \<le> n"
  by (rule order_trans[OF length_dropWhile_le])

lemma fractionLit_length: "fractionLit s = Some (t, r) \<Longrightarrow> length r \<le> length s"
  by (cases s; cases "tl s")
     (auto simp add: fractionLit_def len_dropWhile split: if_splits)

lemma exponentLit_length:
  assumes "exponentLit s = Some (t, r)"
  shows "length r \<le> length s"
proof (cases s)
  case Nil
  then show ?thesis using assms by (simp add: exponentLit_def)
next
  case (Cons e r0)
  show ?thesis
  proof (cases "e \<noteq> CHR ''e'' \<and> e \<noteq> CHR ''E''")
    case True
    then show ?thesis using assms Cons by (auto simp add: exponentLit_def)
  next
    case False
    obtain sg r1 where r1: "(case r0 of [] \<Rightarrow> ([], r0)
               | x # r' \<Rightarrow> if x = CHR ''+'' \<or> x = CHR ''-'' then ([x], r') else ([], r0))
              = (sg, r1)"
      by fastforce
    have l1: "length r1 \<le> length r0"
      using r1 by (cases r0) (auto split: if_splits)
    have "r = dropWhile isDigit r1"
      using assms Cons False r1
      by (cases r1) (auto simp add: exponentLit_def split: if_splits)
    then show ?thesis using l1 Cons by (simp add: len_dropWhile)
  qed
qed

lemma numberLit_length:
  assumes "numberLit s = Some (t, r)"
  shows "length r < length s"
proof -
  obtain sign s1 where s1: "(case s of [] \<Rightarrow> ([], s)
             | c # r \<Rightarrow> if c = CHR ''-'' then ([c], r) else ([], s)) = (sign, s1)"
    by fastforce
  have l1: "length s1 \<le> length s"
    using s1 by (cases s) (auto split: if_splits)
  have n1: "(case s1 of [] \<Rightarrow> None
         | d # s2 \<Rightarrow>
             if \<not> isDigit d then None
             else
               (let (ip, s3) =
                      (if d = CHR ''0'' then ([d], s2)
                       else (d # takeWhile isDigit s2, dropWhile isDigit s2))
                in case fractionLit s3 of
                     None \<Rightarrow> None
                   | Some (fp, s4) \<Rightarrow>
                       (case exponentLit s4 of
                          None \<Rightarrow> None
                        | Some (ep, s5) \<Rightarrow> Some (sign @ ip @ fp @ ep, s5)))) = Some (t, r)"
    using assms s1 by (simp add: numberLit_def)
  then obtain d s2 where c: "s1 = d # s2" "isDigit d"
    by (cases s1) (auto split: if_splits)
  obtain ip s3 where s3: "(if d = CHR ''0'' then ([d], s2)
             else (d # takeWhile isDigit s2, dropWhile isDigit s2)) = (ip, s3)"
    by fastforce
  have l3: "length s3 \<le> length s2"
    using s3 by (auto simp add: len_dropWhile split: if_splits)
  have n2: "(case fractionLit s3 of
                     None \<Rightarrow> None
                   | Some (fp, s4) \<Rightarrow>
                       (case exponentLit s4 of
                          None \<Rightarrow> None
                        | Some (ep, s5) \<Rightarrow> Some (sign @ ip @ fp @ ep, s5))) = Some (t, r)"
    using n1 c s3 by simp
  then obtain fp s4 where s4: "fractionLit s3 = Some (fp, s4)"
    by (cases "fractionLit s3") auto
  then obtain ep where s5: "exponentLit s4 = Some (ep, r)"
    using n2 by (cases "exponentLit s4") auto
  show ?thesis
    using l1 c(1) l3 fractionLit_length[OF s4] exponentLit_length[OF s5] by simp
qed

lemma drop_shorter: "length (take k s) = k \<Longrightarrow> 0 < k \<Longrightarrow> length (drop k s) < length s"
  by auto

lemma literalLit_length:
  assumes "literalLit s = Some (v, r)"
  shows "length r < length s"
proof -
  consider "take 4 s = ''true''" "r = drop 4 s" | "take 5 s = ''false''" "r = drop 5 s"
    | "take 4 s = ''null''" "r = drop 4 s"
    using assms by (auto simp add: literalLit_def split: if_splits)
  then show ?thesis
  proof cases
    case 1
    then have "length (take 4 s) = 4" by simp
    then show ?thesis using 1(2) drop_shorter[of 4 s] by simp
  next
    case 2
    then have "length (take 5 s) = 5" by simp
    then show ?thesis using 2(2) drop_shorter[of 5 s] by simp
  next
    case 3
    then have "length (take 4 s) = 4" by simp
    then show ?thesis using 3(2) drop_shorter[of 4 s] by simp
  qed
qed


lemma skipSpace_Cons_length: "skipSpace s = c # r \<Longrightarrow> length r < length s"
  using skipSpace_length[of s] by simp

lemma parseValue_cases:
  assumes "parseValue (Suc n) d s = Some (v, r)"
  shows "(\<exists>t. length t < length s \<and> parseObject n (Suc d) [] t = Some (v, r)
              \<and> (\<forall>k. parseValue (Suc k) d s = parseObject k (Suc d) [] t))
       \<or> (\<exists>t. length t < length s \<and> parseArray n (Suc d) [] t = Some (v, r)
              \<and> (\<forall>k. parseValue (Suc k) d s = parseArray k (Suc d) [] t))
       \<or> (length r < length s \<and> (\<forall>k. parseValue (Suc k) d s = Some (v, r)))"
proof -
  obtain c cs where sk: "skipSpace s = c # cs"
    using assms by (cases "skipSpace s") simp_all
  have lcs: "length cs < length s" using skipSpace_Cons_length[OF sk] .
  show ?thesis
  proof (cases "c = CHR ''{''")
    case True
    have dep: "\<not> maxNestingDepth < Suc d" using assms sk True by (auto split: if_splits)
    obtain c' r0 where sk2: "skipSpace cs = c' # r0"
      using assms sk True dep by (cases "skipSpace cs") simp_all
    have l0: "length r0 < length cs" using skipSpace_Cons_length[OF sk2] .
    show ?thesis
    proof (cases "c' = CHR ''}''")
      case c: True
      then have "r = r0" "\<forall>k. parseValue (Suc k) d s = Some (v, r)"
        using assms sk True dep sk2 by simp_all
      then show ?thesis using l0 lcs by simp
    next
      case c: False
      then have "parseObject n (Suc d) [] (c' # r0) = Some (v, r)"
          "\<forall>k. parseValue (Suc k) d s = parseObject k (Suc d) [] (c' # r0)"
        using assms sk True dep sk2 by simp_all
      moreover have "length (c' # r0) < length s" using l0 lcs by simp
      ultimately show ?thesis by blast
    qed
  next
    case nobj: False
    show ?thesis
    proof (cases "c = CHR ''[''")
      case True
      have dep: "\<not> maxNestingDepth < Suc d"
        using assms sk True nobj by (auto split: if_splits)
      obtain c' r0 where sk2: "skipSpace cs = c' # r0"
        using assms sk True nobj dep by (cases "skipSpace cs") simp_all
      have l0: "length r0 < length cs" using skipSpace_Cons_length[OF sk2] .
      show ?thesis
      proof (cases "c' = CHR '']''")
        case c: True
        then have "r = r0" "\<forall>k. parseValue (Suc k) d s = Some (v, r)"
          using assms sk True nobj dep sk2 by simp_all
        then show ?thesis using l0 lcs by simp
      next
        case c: False
        then have "parseArray n (Suc d) [] (c' # r0) = Some (v, r)"
            "\<forall>k. parseValue (Suc k) d s = parseArray k (Suc d) [] (c' # r0)"
          using assms sk True nobj dep sk2 by simp_all
        moreover have "length (c' # r0) < length s" using l0 lcs by simp
        ultimately show ?thesis by blast
      qed
    next
      case narr: False
      have ind: "\<forall>k. parseValue (Suc k) d s = parseValue (Suc n) d s"
        using sk nobj narr by (simp del: stringLit.simps)
      have "length r < length s"
      proof (cases "c = dquote")
        case True
        then obtain str where "stringLit cs = Some (str, r)"
          using assms sk nobj narr by (auto simp del: stringLit.simps split: option.splits)
        then show ?thesis using stringLit_length lcs by fastforce
      next
        case nstr: False
        show ?thesis
        proof (cases "c = CHR ''-'' \<or> isDigit c")
          case True
          then obtain lit where "numberLit (c # cs) = Some (lit, r)"
            using assms sk nobj narr nstr
            by (auto simp del: stringLit.simps split: option.splits)
          then have "length r < length (c # cs)" by (rule numberLit_length)
          then show ?thesis using skipSpace_length[of s] sk by simp
        next
          case False
          then have "literalLit (c # cs) = Some (v, r)"
            using assms sk nobj narr nstr by (simp del: stringLit.simps)
          then have "length r < length (c # cs)" by (rule literalLit_length)
          then show ?thesis using skipSpace_length[of s] sk by simp
        qed
      qed
      then show ?thesis using ind assms by simp
    qed
  qed
qed

lemma parseArray_cases:
  assumes "parseArray (Suc n) d acc s = Some (v, r)"
  shows "\<exists>v1 r1 c r'. parseValue n d s = Some (v1, r1) \<and> length r' < length r1
           \<and> ((c = CHR '','' \<and> parseArray n d (acc @ [v1]) r' = Some (v, r))
                \<or> (c \<noteq> CHR '','' \<and> r = r'))
           \<and> (\<forall>k. parseValue k d s = Some (v1, r1) \<longrightarrow>
                  parseArray (Suc k) d acc s
                    = (if c = CHR '','' then parseArray k d (acc @ [v1]) r' else Some (v, r)))"
proof -
  obtain v1 r1 where pv: "parseValue n d s = Some (v1, r1)"
    using assms by (cases "parseValue n d s") (auto simp del: parseValue.simps)
  obtain c r' where sk: "skipSpace r1 = c # r'"
    using assms pv by (cases "skipSpace r1") (simp_all del: parseValue.simps)
  have l: "length r' < length r1" using skipSpace_Cons_length[OF sk] .
  show ?thesis
  proof (cases "c = CHR '',''")
    case True
    then have "parseArray n d (acc @ [v1]) r' = Some (v, r)"
      using assms pv sk by (simp del: parseValue.simps)
    then show ?thesis using pv sk l True
      by (intro exI[of _ v1] exI[of _ r1] exI[of _ c] exI[of _ r'])
         (simp del: parseValue.simps)
  next
    case False
    then have "c = CHR '']''" "v = JArray (acc @ [v1])" "r = r'"
      using assms pv sk by (auto simp del: parseValue.simps split: if_splits)
    then show ?thesis using pv sk l False
      by (intro exI[of _ v1] exI[of _ r1] exI[of _ c] exI[of _ r'])
         (simp del: parseValue.simps)
  qed
qed

lemma parseObject_cases:
  assumes "parseObject (Suc n) d acc s = Some (v, r)"
  shows "\<exists>k v1 r2 r3 c r'. length r2 < length s \<and> parseValue n d r2 = Some (v1, r3)
           \<and> length r' < length r3
           \<and> ((c = CHR '','' \<and> parseObject n d (acc @ [(k, v1)]) r' = Some (v, r))
                \<or> (c \<noteq> CHR '','' \<and> r = r'))
           \<and> (\<forall>j. parseValue j d r2 = Some (v1, r3) \<longrightarrow>
                  parseObject (Suc j) d acc s
                    = (if c = CHR '','' then parseObject j d (acc @ [(k, v1)]) r'
                       else Some (v, r)))"
proof -
  obtain c0 r0 where sk0: "skipSpace s = c0 # r0"
    using assms by (cases "skipSpace s") (simp_all del: parseValue.simps)
  have q: "c0 = dquote"
    using assms sk0 by (auto simp del: parseValue.simps stringLit.simps split: if_splits)
  obtain k r1 where sl: "stringLit r0 = Some (k, r1)"
    using assms sk0 q
    by (cases "stringLit r0") (auto simp del: parseValue.simps stringLit.simps)
  obtain c1 r2 where sk1: "skipSpace r1 = c1 # r2"
    using assms sk0 q sl
    by (cases "skipSpace r1") (simp_all del: parseValue.simps stringLit.simps)
  have col: "c1 = CHR '':''"
    using assms sk0 q sl sk1
    by (auto simp del: parseValue.simps stringLit.simps split: if_splits)
  obtain v1 r3 where pv: "parseValue n d r2 = Some (v1, r3)"
    using assms sk0 q sl sk1 col
    by (cases "parseValue n d r2") (auto simp del: parseValue.simps stringLit.simps)
  obtain c r' where sk3: "skipSpace r3 = c # r'"
    using assms sk0 q sl sk1 col pv
    by (cases "skipSpace r3") (simp_all del: parseValue.simps stringLit.simps)
  have l2: "length r2 < length s"
    using skipSpace_Cons_length[OF sk0] stringLit_length[OF sl] skipSpace_Cons_length[OF sk1]
    by simp
  have l3: "length r' < length r3" using skipSpace_Cons_length[OF sk3] .
  have unf: "\<forall>j. parseValue j d r2 = Some (v1, r3) \<longrightarrow>
               parseObject (Suc j) d acc s
                 = (if c = CHR '','' then parseObject j d (acc @ [(k, v1)]) r'
                    else if c = CHR ''}'' then Some (JObject (acc @ [(k, v1)]), r') else None)"
    using sk0 q sl sk1 col sk3 by (simp del: parseValue.simps stringLit.simps)
  show ?thesis
  proof (cases "c = CHR '',''")
    case True
    then have "parseObject n d (acc @ [(k, v1)]) r' = Some (v, r)"
      using assms unf pv by (simp del: parseValue.simps stringLit.simps)
    then show ?thesis using pv l2 l3 True unf
      by (intro exI[of _ k] exI[of _ v1] exI[of _ r2] exI[of _ r3] exI[of _ c] exI[of _ r'])
         (simp del: parseValue.simps stringLit.simps parseObject.simps)
  next
    case False
    then have e: "(if c = CHR ''}'' then Some (JObject (acc @ [(k, v1)]), r') else None)
                    = Some (v, r)"
      using assms unf pv by (simp del: parseValue.simps stringLit.simps)
    then have "r = r'" by (auto split: if_splits)
    then show ?thesis using pv l2 l3 False unf e
      by (intro exI[of _ k] exI[of _ v1] exI[of _ r2] exI[of _ r3] exI[of _ c] exI[of _ r'])
         (simp del: parseValue.simps stringLit.simps parseObject.simps)
  qed
qed


lemma parse_fuel:
  "(\<forall>d s v r. parseValue n d s = Some (v, r) \<longrightarrow>
       length r < length s
       \<and> (\<forall>m. 2 * (length s - length r) \<le> Suc m \<longrightarrow> parseValue m d s = Some (v, r)))
   \<and> (\<forall>d acc s v r. parseArray n d acc s = Some (v, r) \<longrightarrow>
       length r < length s
       \<and> (\<forall>m. 2 * (length s - length r) \<le> m \<longrightarrow> parseArray m d acc s = Some (v, r)))
   \<and> (\<forall>d acc s v r. parseObject n d acc s = Some (v, r) \<longrightarrow>
       length r < length s
       \<and> (\<forall>m. 2 * (length s - length r) \<le> m \<longrightarrow> parseObject m d acc s = Some (v, r)))"
proof (induction n)
  case 0
  show ?case by simp
next
  case (Suc n)
  have ih1: "\<And>d s v r. parseValue n d s = Some (v, r) \<Longrightarrow> length r < length s"
    and ih1': "\<And>d s v r m. parseValue n d s = Some (v, r) \<Longrightarrow>
                 2 * (length s - length r) \<le> Suc m \<Longrightarrow> parseValue m d s = Some (v, r)"
    and ih2: "\<And>d acc s v r. parseArray n d acc s = Some (v, r) \<Longrightarrow> length r < length s"
    and ih2': "\<And>d acc s v r m. parseArray n d acc s = Some (v, r) \<Longrightarrow>
                 2 * (length s - length r) \<le> m \<Longrightarrow> parseArray m d acc s = Some (v, r)"
    and ih3: "\<And>d acc s v r. parseObject n d acc s = Some (v, r) \<Longrightarrow> length r < length s"
    and ih3': "\<And>d acc s v r m. parseObject n d acc s = Some (v, r) \<Longrightarrow>
                 2 * (length s - length r) \<le> m \<Longrightarrow> parseObject m d acc s = Some (v, r)"
    using Suc by blast+
  have v: "length r < length s
           \<and> (\<forall>m. 2 * (length s - length r) \<le> Suc m \<longrightarrow> parseValue m d s = Some (v, r))"
    if a: "parseValue (Suc n) d s = Some (v, r)" for d s v r
  proof -
    from parseValue_cases[OF a] consider
      t where "length t < length s" "parseObject n (Suc d) [] t = Some (v, r)"
        "\<forall>k. parseValue (Suc k) d s = parseObject k (Suc d) [] t"
      | t where "length t < length s" "parseArray n (Suc d) [] t = Some (v, r)"
        "\<forall>k. parseValue (Suc k) d s = parseArray k (Suc d) [] t"
      | "length r < length s" "\<forall>k. parseValue (Suc k) d s = Some (v, r)"
      by blast
    then show ?thesis
    proof cases
      case 1
      have lr: "length r < length t" using ih3[OF 1(2)] .
      have "parseValue m d s = Some (v, r)" if m: "2 * (length s - length r) \<le> Suc m" for m
      proof -
        obtain k where k: "m = Suc k" using m lr 1(1) by (cases m) auto
        have "2 * (length t - length r) \<le> k" using m k lr 1(1) by arith
        then show ?thesis using ih3'[OF 1(2)] 1(3) k by simp
      qed
      then show ?thesis using lr 1(1) by simp
    next
      case 2
      have lr: "length r < length t" using ih2[OF 2(2)] .
      have "parseValue m d s = Some (v, r)" if m: "2 * (length s - length r) \<le> Suc m" for m
      proof -
        obtain k where k: "m = Suc k" using m lr 2(1) by (cases m) auto
        have "2 * (length t - length r) \<le> k" using m k lr 2(1) by arith
        then show ?thesis using ih2'[OF 2(2)] 2(3) k by simp
      qed
      then show ?thesis using lr 2(1) by simp
    next
      case 3
      have "parseValue m d s = Some (v, r)" if m: "2 * (length s - length r) \<le> Suc m" for m
      proof -
        obtain k where k: "m = Suc k" using m 3(1) by (cases m) auto
        then show ?thesis using 3(2) by simp
      qed
      then show ?thesis using 3(1) by simp
    qed
  qed
  have a: "length r < length s
           \<and> (\<forall>m. 2 * (length s - length r) \<le> m \<longrightarrow> parseArray m d acc s = Some (v, r))"
    if a: "parseArray (Suc n) d acc s = Some (v, r)" for d acc s v r
  proof -
    from parseArray_cases[OF a] obtain v1 r1 c r' where
      pv: "parseValue n d s = Some (v1, r1)" and l: "length r' < length r1"
      and br: "(c = CHR '','' \<and> parseArray n d (acc @ [v1]) r' = Some (v, r))
                \<or> (c \<noteq> CHR '','' \<and> r = r')"
      and unf: "\<forall>k. parseValue k d s = Some (v1, r1) \<longrightarrow>
                  parseArray (Suc k) d acc s
                    = (if c = CHR '','' then parseArray k d (acc @ [v1]) r' else Some (v, r))"
      by blast
    have l1: "length r1 < length s" using ih1[OF pv] .
    have lr: "length r \<le> length r'" using br ih2 by (auto simp add: less_imp_le)
    have "parseArray m d acc s = Some (v, r)" if m: "2 * (length s - length r) \<le> m" for m
    proof -
      obtain k where k: "m = Suc k" using m l l1 lr by (cases m) auto
      have "2 * (length s - length r1) \<le> Suc k" using m k l l1 lr by arith
      then have pk: "parseValue k d s = Some (v1, r1)" using ih1'[OF pv] by simp
      show ?thesis
      proof (cases "c = CHR '',''")
        case True
        then have pa: "parseArray n d (acc @ [v1]) r' = Some (v, r)" using br by simp
        have "2 * (length r' - length r) \<le> k" using m k l l1 lr by arith
        then show ?thesis using ih2'[OF pa] unf pk True k by simp
      next
        case False
        then show ?thesis using unf pk k by simp
      qed
    qed
    then show ?thesis using l l1 lr by simp
  qed
  have b: "length r < length s
           \<and> (\<forall>m. 2 * (length s - length r) \<le> m \<longrightarrow> parseObject m d acc s = Some (v, r))"
    if a: "parseObject (Suc n) d acc s = Some (v, r)" for d acc s v r
  proof -
    from parseObject_cases[OF a] obtain k v1 r2 r3 c r' where
      l2: "length r2 < length s" and pv: "parseValue n d r2 = Some (v1, r3)"
      and l: "length r' < length r3"
      and br: "(c = CHR '','' \<and> parseObject n d (acc @ [(k, v1)]) r' = Some (v, r))
                \<or> (c \<noteq> CHR '','' \<and> r = r')"
      and unf: "\<forall>j. parseValue j d r2 = Some (v1, r3) \<longrightarrow>
                  parseObject (Suc j) d acc s
                    = (if c = CHR '','' then parseObject j d (acc @ [(k, v1)]) r'
                       else Some (v, r))"
      by blast
    have l3: "length r3 < length r2" using ih1[OF pv] .
    have lr: "length r \<le> length r'" using br ih3 by (auto simp add: less_imp_le)
    have "parseObject m d acc s = Some (v, r)" if m: "2 * (length s - length r) \<le> m" for m
    proof -
      obtain j where j: "m = Suc j" using m l l2 l3 lr by (cases m) auto
      have "2 * (length r2 - length r3) \<le> Suc j" using m j l l2 l3 lr by arith
      then have pk: "parseValue j d r2 = Some (v1, r3)" using ih1'[OF pv] by simp
      show ?thesis
      proof (cases "c = CHR '',''")
        case True
        then have pa: "parseObject n d (acc @ [(k, v1)]) r' = Some (v, r)" using br by simp
        have "2 * (length r' - length r) \<le> j" using m j l l2 l3 lr by arith
        then show ?thesis using ih3'[OF pa] unf pk True j by simp
      next
        case False
        then show ?thesis using unf pk j by simp
      qed
    qed
    then show ?thesis using l l2 l3 lr by simp
  qed
  show ?case using v a b by blast
qed

lemma fuelFor_enough:
  assumes "parseValue n d s = Some (v, r)"
  shows "parseValue (fuelFor s) d s = Some (v, r)"
proof -
  have "2 * (length s - length r) \<le> Suc (fuelFor s)" by (simp add: fuelFor_def)
  then show ?thesis using parse_fuel[of n] assms by blast
qed

lemma parse_fuel_independent:
  assumes "parseValue n d s = Some x" and "parseValue m d s = Some y"
  shows "x = y"
  using fuelFor_enough[of n d s "fst x" "snd x"] fuelFor_enough[of m d s "fst y" "snd y"] assms
  by simp


subsection \<open>The store operations in closed form\<close>

lemma refused_key_absent: "keyError key \<noteq> None \<Longrightarrow> entries db key = None"
  using entries[of db] by (auto simp add: dom_def)

lemma storeValue_eq:
  "storeValue key v db =
     (case txn_modify key (projr (json_Marshal v)) of
        Some err \<Rightarrow> (Inl err, db)
      | None \<Rightarrow> (Inr (), insertEntry key (projr (json_Marshal v)) db))"
  by (simp add: storeValue_def db_Update_def txn_Set_def json_Marshal_def split: option.splits)

lemma storeValue_success:
  assumes "storeValue key v db = (Inr (), db')"
  shows "txn_modify key (projr (json_Marshal v)) = None" and "keyError key = None"
    and "db' = insertEntry key (projr (json_Marshal v)) db"
    and "entries db' = (entries db)(key \<mapsto> projr (json_Marshal v))"
proof -
  show m: "txn_modify key (projr (json_Marshal v)) = None"
    using assms by (auto simp add: storeValue_eq split: option.splits)
  show k: "keyError key = None"
    using m by (auto simp add: txn_modify_def split: option.splits)
  show d: "db' = insertEntry key (projr (json_Marshal v)) db"
    using assms m by (simp add: storeValue_eq)
  show "entries db' = (entries db)(key \<mapsto> projr (json_Marshal v))"
    unfolding d using k by (simp add: insertEntry.rep_eq)
qed

lemma storeValue_other:
  "p \<noteq> key \<Longrightarrow> entries (snd (storeValue key v db)) p = entries db p"
  by (simp add: storeValue_eq insertEntry.rep_eq split: option.splits)

lemma deleteValue_eq:
  "deleteValue key db =
     (case keyError key of
        Some err \<Rightarrow> (Inl err, db)
      | None \<Rightarrow> (Inr (), removeEntry key db))"
  by (simp add: deleteValue_def db_Update_def txn_Delete_def txn_modify_def
        ValueLogFileSize_def split: option.splits)

lemma deleteValue_absent: "entries (snd (deleteValue key db)) key = None"
  by (cases "keyError key")
     (simp_all add: deleteValue_eq removeEntry.rep_eq refused_key_absent)

lemma removeEntry_absent: "entries db key = None \<Longrightarrow> removeEntry key db = db"
  by (simp add: entries_inject[symmetric] removeEntry.rep_eq fun_upd_idem)

lemma getValue_eq:
  "getValue key db =
     (if key = [] then Inl ErrEmptyKey
      else (case entries db key of
              None \<Rightarrow> Inl ErrKeyNotFound
            | Some val \<Rightarrow> json_Unmarshal val), db)"
  by (simp add: getValue_def db_View_def txn_Get_def split: option.splits)

lemma keyError_nonempty: "keyError key = None \<Longrightarrow> key \<noteq> []"
  by (auto simp add: keyError_def)

lemma json_Marshal_projr: "json_Marshal v = Inr (projr (json_Marshal v))"
  by (simp add: json_Marshal_def)

lemma isEmptyValue_absentIfEmpty:
  "(if isEmptyValue d then None else d) = absentIfEmpty d"
  by (cases d) (auto simp add: isEmptyValue_def absentIfEmpty_def)

lemma roundTrip_eq:
  "roundTrip v = Inr \<lparr>Content = coerceUTF8 (Content v), ContentType = coerceUTF8 (ContentType v),
                       Data = absentIfEmpty (Data v)\<rparr>"
  using json_Unmarshal_json_Marshal[OF json_Marshal_projr, of v]
  by (subst roundTrip_def, subst json_Marshal_projr) (simp add: isEmptyValue_absentIfEmpty)

lemma roundTrip_valid:
  "validValue v \<Longrightarrow> roundTrip v = Inr (v\<lparr>Data := absentIfEmpty (Data v)\<rparr>)"
  by (simp add: roundTrip_eq validValue_def coerceUTF8_valid)

lemma getValue_storeValue:
  assumes "storeValue key v db = (Inr (), db')"
  shows "fst (getValue key db') = roundTrip v"
  using storeValue_success(4)[OF assms] keyError_nonempty[OF storeValue_success(2)[OF assms]]
  by (simp add: getValue_eq roundTrip_def json_Marshal_def)

subsection \<open>Values the engine takes\<close>

text \<open>The document written for a value is at most six times as long as its strings,
  so a value of ordinary size is within the engine's bound.\<close>

lemma escapeByte_length: "length (escapeByte c) \<le> 6"
  by (simp add: escapeByte_def)

lemma appendString_loop_length: "length (appendString_loop s) \<le> 6 * length s"
proof (induction "length s" arbitrary: s rule: less_induct)
  case less
  show ?case
  proof (cases s)
    case Nil
    then show ?thesis by simp
  next
    case (Cons c cs)
    have ih: "\<And>t. length t \<le> length cs \<Longrightarrow> length (appendString_loop t) \<le> 6 * length t"
      using less Cons by simp
    show ?thesis
    proof (cases "byte c < 0x80")
      case True
      then show ?thesis
        using Cons ih[of cs] escapeByte_length[of c] by (simp add: RuneSelf_def)
    next
      case False
      then have hi: "0x80 \<le> byte c" by simp
      obtain r sz where d: "DecodeRune (c # cs) = (r, sz)" by fastforce
      show ?thesis
      proof (cases "r = RuneError \<and> sz = 1")
        case True
        then show ?thesis
          using False Cons d ih[of cs] by (simp add: RuneSelf_def del: DecodeRune.simps)
      next
        case valid: False
        have m: "2 \<le> sz" "sz \<le> Suc (length cs)"
          using DecodeRune_multi[OF hi d valid] by auto
        have l: "length (appendString_loop (drop (sz - 1) cs)) \<le> 6 * (length cs - (sz - 1))"
          using ih[of "drop (sz - 1) cs"] by simp
        have "length (appendString_loop (c # cs))
                \<le> max 6 sz + length (appendString_loop (drop (sz - 1) cs))"
          using False valid d m
          by (cases sz) (auto simp add: RuneSelf_def simp del: DecodeRune.simps)
        then show ?thesis using l m Cons by simp
      qed
    qed
  qed
qed

lemma b64Encode_length: "length (b64Encode b) \<le> 2 * length b + 4"
  by (induction b rule: b64Encode.induct) simp_all

lemma json_Marshal_length:
  "length (projr (json_Marshal v))
     \<le> 6 * length (Content v) + 6 * length (ContentType v) + 2 * len (Data v) + 200"
proof -
  have k: "length (appendString_loop ''content'') \<le> 42"
      "length (appendString_loop ''content_type'') \<le> 72"
      "length (appendString_loop ''data'') \<le> 24"
    using appendString_loop_length[of "''content''"]
      appendString_loop_length[of "''content_type''"] appendString_loop_length[of "''data''"]
    by (simp_all del: appendString_loop.simps)
  show ?thesis
    using k appendString_loop_length[of "Content v"] appendString_loop_length[of "ContentType v"]
      b64Encode_length[of "the (Data v)"]
    by (cases "Data v")
       (auto simp add: json_Marshal_def appendString_def encodeByteSlice_def isEmptyValue_def
          len_def simp del: appendString_loop.simps b64Encode.simps)
qed

lemma storeValue_accepts:
  assumes "keyError key = None"
    and "6 * length (Content v) + 6 * length (ContentType v) + 2 * len (Data v) + 200
           \<le> ValueLogFileSize"
  shows "storeValue key v db = (Inr (), snd (storeValue key v db))"
proof -
  have "\<not> ValueLogFileSize < length (projr (json_Marshal v))"
    using json_Marshal_length[of v] assms(2) by simp
  then have "txn_modify key (projr (json_Marshal v)) = None"
    using assms(1) by (simp add: txn_modify_def)
  then show ?thesis by (simp add: storeValue_eq)
qed

lemma ValidString_ascii: "\<forall>c \<in> set s. byte c < 0x80 \<Longrightarrow> ValidString s"
  by (induction s) (simp_all add: RuneError_def)

text \<open>Why validity asks for well-formed UTF-8: a byte that starts no sequence is
  written as the escape of U+FFFD and comes back as the three bytes of U+FFFD.\<close>

lemma roundTrip_ill_formed:
  "roundTrip \<lparr>Content = [CHR 0xFF], ContentType = ''text/plain'', Data = None\<rparr>
     = Inr \<lparr>Content = [CHR 0xEF, CHR 0xBF, CHR 0xBD], ContentType = ''text/plain'',
            Data = None\<rparr>"
proof -
  have "coerceUTF8 [CHR 0xFF] = [CHR 0xEF, CHR 0xBF, CHR 0xBD]"
    by (simp add: RuneError_def EncodeRune_def char_of_eq_small)
  moreover have "coerceUTF8 ''text/plain'' = ''text/plain''"
    by (rule coerceUTF8_valid) (simp add: ValidString_ascii del: ValidString.simps)
  ultimately show ?thesis
    by (simp add: roundTrip_eq absentIfEmpty_def del: coerceUTF8.simps)
qed

subsection \<open>The status a handler answers with\<close>

lemma http_Error_status: "w_status w = None \<Longrightarrow> w_status (http_Error msg code w) = Some code"
  by (simp add: http_Error_def Write_def WriteHeader_def Header_Set_def Header_Del_def Let_def)

lemma Write_status: "w_status w = None \<Longrightarrow> w_status (Write b w) = Some StatusOK"
  by (simp add: Write_def WriteHeader_def Let_def)

lemma Encode_status: "w_status w = None \<Longrightarrow> w_status (Encode es w) = Some StatusOK"
  by (simp add: Encode_def Write_status)

lemma Header_Set_status: "w_status (Header_Set k v w) = w_status w"
  by (simp add: Header_Set_def)

lemma handleGet_status:
  assumes "w_status w = None"
  shows "w_status (fst (handleGet w r p db)) = Some StatusNotFound
           \<longleftrightarrow> fst (getValue p db) = Inl ErrKeyNotFound"
  using assms
  by (cases "getValue p db")
     (auto simp add: handleGet_def http_Error_status Write_status Header_Set_status Let_def
        StatusNotFound_def StatusOK_def StatusInternalServerError_def split: sum.splits)

lemma handleDelete_status:
  assumes "w_status w = None"
  shows "w_status (fst (handleDelete w r p db)) = Some StatusNotFound
           \<longleftrightarrow> fst (getValue p db) = Inl ErrKeyNotFound"
  using assms
  by (cases "getValue p db"; cases "deleteValue p db")
     (auto simp add: handleDelete_def http_Error_status Encode_status Header_Set_status
        getValue_eq StatusNotFound_def StatusOK_def StatusInternalServerError_def
        split: sum.splits prod.splits)

subsection \<open>What the handlers of PUT and DELETE do to the store\<close>

lemma handlePut_stored:
  assumes "Body r = Inr body"
    and "ct = (if Header_Get ''Content-Type'' (Header r) = [] then ''application/octet-stream''
               else Header_Get ''Content-Type'' (Header r))"
    and "storeValue path \<lparr>Content = [], ContentType = ct, Data = Some body\<rparr> db = (Inr (), db')"
  shows "snd (handlePut w r path db) = db'
     \<and> fst (getValue path db')
         = Inr \<lparr>Content = [], ContentType = coerceUTF8 ct, Data = absentIfEmpty (Some body)\<rparr>
     \<and> bytesOf (absentIfEmpty (Some body)) = body
     \<and> (ValidString ct \<longrightarrow> coerceUTF8 ct = ct)"
proof -
  let ?dv = "\<lparr>Content = [], ContentType = ct, Data = Some body\<rparr>"
  have a: "snd (handlePut w r path db) = db'"
    using assms by (simp add: handlePut_def Let_def)
  have b: "fst (getValue path db') = roundTrip ?dv"
    by (rule getValue_storeValue[OF assms(3)])
  have c: "coerceUTF8 [] = []" by simp
  show ?thesis
    using a b c by (auto simp add: roundTrip_eq absentIfEmpty_def bytesOf_def coerceUTF8_valid
                      simp del: coerceUTF8.simps)
qed

lemma deleteValue_accepted:
  assumes "keyError key = None" and "w_status w = None"
  shows "fst (deleteValue key db) = Inr ()
     \<and> entries (snd (deleteValue key db)) = (entries db)(key := None)
     \<and> (entries db key = None \<longrightarrow> deleteValue key db = (Inr (), db))
     \<and> (\<forall>k d. fst (deleteValue k d) \<noteq> Inl ErrKeyNotFound)
     \<and> (\<forall>k d. w_status (fst (handleDelete w r k d)) = Some StatusNotFound
                \<longleftrightarrow> fst (getValue k d) = Inl ErrKeyNotFound)
     \<and> (entries db key = None \<longrightarrow>
          handleDelete w r key db = (http_Error (notFoundMessage key) StatusNotFound w, db))"
proof -
  have ne: "key \<noteq> []" using assms(1) by (rule keyError_nonempty)
  have 1: "fst (deleteValue key db) = Inr ()"
    and 2: "entries (snd (deleteValue key db)) = (entries db)(key := None)"
    using assms(1) by (simp_all add: deleteValue_eq removeEntry.rep_eq)
  have 3: "deleteValue key db = (Inr (), db)" if "entries db key = None"
    using assms(1) that by (simp add: deleteValue_eq removeEntry_absent)
  have 4: "fst (deleteValue k d) \<noteq> Inl ErrKeyNotFound" for k d
    by (auto simp add: deleteValue_eq keyError_def split: option.splits if_splits)
  have 5: "handleDelete w r key db = (http_Error (notFoundMessage key) StatusNotFound w, db)"
    if "entries db key = None"
    using that ne by (simp add: handleDelete_def getValue_eq)
  show ?thesis using 1 2 3 4 5 handleDelete_status[OF assms(2)] by blast
qed

lemma replicate_no_prefix: "\<not> HasPrefix (replicate n (CHR ''k'')) badgerPrefix"
  by (cases n) (simp_all add: HasPrefix_def badgerPrefix_def)


section \<open>The properties of the store\<close>

text \<open>
  Claim C1 (as amended). For every value whose text content and content type are
  well-formed UTF-8, decoding the encoding succeeds and gives the value back with the
  text content, the content type and the bytes of the binary data unchanged, except
  that an empty binary payload is not kept apart from an absent one: it is decoded as
  absent.
\<close>

theorem roundtrip_amended:
  assumes "validValue v"
  shows "roundTrip v = Inr (v\<lparr>Data := absentIfEmpty (Data v)\<rparr>)"
  using assms by (rule roundTrip_valid)

theorem roundtrip_amended_witness:
  "validValue \<lparr>Content = ''# hi'', ContentType = ''image/png'',
               Data = Some [CHR 0x89, CHR 0x50, CHR 0x4E, CHR 0x47]\<rparr>
   \<and> roundTrip \<lparr>Content = ''# hi'', ContentType = ''image/png'',
                 Data = Some [CHR 0x89, CHR 0x50, CHR 0x4E, CHR 0x47]\<rparr>
       = Inr \<lparr>Content = ''# hi'', ContentType = ''image/png'',
               Data = Some [CHR 0x89, CHR 0x50, CHR 0x4E, CHR 0x47]\<rparr>"
  using roundtrip_amended [of "\<lparr>Content = ''# hi'', ContentType = ''image/png'',
               Data = Some [CHR 0x89, CHR 0x50, CHR 0x4E, CHR 0x47]\<rparr>"]
  by (simp add: validValue_def ValidString_ascii absentIfEmpty_def del: ValidString.simps)

text \<open>
  The claim as written fails: a value with an empty, non-absent binary payload comes
  back with an absent one.
\<close>

theorem roundtrip_counterexample:
  "validValue \<lparr>Content = [], ContentType = ''application/octet-stream'', Data = Some []\<rparr>
   \<and> roundTrip \<lparr>Content = [], ContentType = ''application/octet-stream'', Data = Some []\<rparr>
       = Inr \<lparr>Content = [], ContentType = ''application/octet-stream'', Data = None\<rparr>
   \<and> roundTrip \<lparr>Content = [], ContentType = ''application/octet-stream'', Data = Some []\<rparr>
       \<noteq> Inr \<lparr>Content = [], ContentType = ''application/octet-stream'', Data = Some []\<rparr>"
  by (simp add: roundTrip_valid validValue_def ValidString_ascii absentIfEmpty_def
        del: ValidString.simps)

text \<open>
  Claim C2 (as amended). Read-after-write: for every non-empty path and every valid
  value, when \<open>storeValue\<close> returns success, \<open>getValue\<close> on the same path returns
  success with the text content, the content type and the bytes of the binary data of
  the value written; an empty binary payload is read back as absent.
\<close>

theorem read_after_write_amended:
  assumes "p \<noteq> []" and "validValue v" and "storeValue p v db = (Inr (), db')"
  shows "fst (getValue p db') = Inr (v\<lparr>Data := absentIfEmpty (Data v)\<rparr>)"
  using getValue_storeValue[OF assms(3)] roundTrip_valid[OF assms(2)] by simp

theorem read_after_write_amended_witness:
  "''docs/readme'' \<noteq> []
   \<and> validValue \<lparr>Content = ''# hi'', ContentType = ''text/markdown'', Data = None\<rparr>
   \<and> storeValue ''docs/readme'' \<lparr>Content = ''# hi'', ContentType = ''text/markdown'', Data = None\<rparr> emptyDB
       = (Inr (), snd (storeValue ''docs/readme'' \<lparr>Content = ''# hi'', ContentType = ''text/markdown'', Data = None\<rparr> emptyDB))
   \<and> fst (getValue ''docs/readme'' (snd (storeValue ''docs/readme'' \<lparr>Content = ''# hi'', ContentType = ''text/markdown'', Data = None\<rparr> emptyDB)))
       = Inr \<lparr>Content = ''# hi'', ContentType = ''text/markdown'', Data = None\<rparr>"
proof -
  let ?v = "\<lparr>Content = ''# hi'', ContentType = ''text/markdown'', Data = None\<rparr>"
  have h1: "''docs/readme'' \<noteq> []" by simp
  have h2: "validValue ?v"
    by (simp add: validValue_def ValidString_ascii del: ValidString.simps)
  have h3: "storeValue ''docs/readme'' ?v emptyDB
              = (Inr (), snd (storeValue ''docs/readme'' ?v emptyDB))"
    by (rule storeValue_accepts) (simp_all add: keyError_def HasPrefix_def badgerPrefix_def maxKeySize_def len_def ValueLogFileSize_def)
  show ?thesis
    using h1 h2 h3 read_after_write_amended [OF h1 h2 h3] by (simp add: absentIfEmpty_def)
qed

text \<open>
  The claim as written fails for a write of an empty binary payload, which a PUT
  request with an empty body makes.
\<close>

theorem read_after_write_counterexample:
  "''images/logo'' \<noteq> []
   \<and> validValue \<lparr>Content = [], ContentType = ''image/png'', Data = Some []\<rparr>
   \<and> fst (storeValue ''images/logo''
            \<lparr>Content = [], ContentType = ''image/png'', Data = Some []\<rparr> emptyDB) = Inr ()
   \<and> fst (getValue ''images/logo''
            (snd (storeValue ''images/logo''
                    \<lparr>Content = [], ContentType = ''image/png'', Data = Some []\<rparr> emptyDB)))
       \<noteq> Inr \<lparr>Content = [], ContentType = ''image/png'', Data = Some []\<rparr>"
proof -
  let ?v = "\<lparr>Content = [], ContentType = ''image/png'', Data = Some []\<rparr>"
  have h2: "validValue ?v"
    by (simp add: validValue_def ValidString_ascii del: ValidString.simps)
  have h3: "storeValue ''images/logo'' ?v emptyDB
              = (Inr (), snd (storeValue ''images/logo'' ?v emptyDB))"
    by (rule storeValue_accepts) (simp_all add: keyError_def HasPrefix_def badgerPrefix_def maxKeySize_def len_def ValueLogFileSize_def)
  have "fst (getValue ''images/logo'' (snd (storeValue ''images/logo'' ?v emptyDB)))
          = Inr (?v\<lparr>Data := None\<rparr>)"
    using getValue_storeValue[OF h3] roundTrip_valid[OF h2] by (simp add: absentIfEmpty_def)
  moreover have "fst (storeValue ''images/logo'' ?v emptyDB) = Inr ()"
    using h3 by (metis fst_conv)
  ultimately show ?thesis using h2 by simp
qed

text \<open>
  Claim C3 (as amended). Overwrite: after two successful writes to one non-empty path,
  the store is the one the second write alone would have left, so nothing of the first
  value remains, and \<open>getValue\<close> returns the second value (valid, and with an empty
  binary payload read back as absent).
\<close>

theorem overwrite_amended:
  assumes "p \<noteq> []" and "validValue v2"
    and "storeValue p v1 db = (Inr (), db1)" and "storeValue p v2 db1 = (Inr (), db2)"
  shows "fst (getValue p db2) = Inr (v2\<lparr>Data := absentIfEmpty (Data v2)\<rparr>)
     \<and> db2 = snd (storeValue p v2 db)"
proof -
  have "fst (getValue p db2) = roundTrip v2"
    by (rule getValue_storeValue[OF assms(4)])
  moreover have "db2 = snd (storeValue p v2 db)"
  proof -
    have m: "txn_modify p (projr (json_Marshal v2)) = None"
      by (rule storeValue_success(1)[OF assms(4)])
    have "entries db2 = (entries db)(p \<mapsto> projr (json_Marshal v2))"
      using storeValue_success(4)[OF assms(4)] storeValue_success(4)[OF assms(3)] by simp
    moreover have "entries (snd (storeValue p v2 db)) = (entries db)(p \<mapsto> projr (json_Marshal v2))"
      using m storeValue_success(2)[OF assms(4)]
      by (simp add: storeValue_eq insertEntry.rep_eq)
    ultimately show ?thesis by (simp add: entries_inject[symmetric])
  qed
  ultimately show ?thesis using roundTrip_valid[OF assms(2)] by simp
qed

theorem overwrite_amended_witness:
  "''k'' \<noteq> []
   \<and> validValue \<lparr>Content = ''second'', ContentType = ''text/plain'', Data = None\<rparr>
   \<and> storeValue ''k'' \<lparr>Content = ''first'', ContentType = ''text/html'', Data = Some ''x''\<rparr> emptyDB
       = (Inr (), snd (storeValue ''k''
                         \<lparr>Content = ''first'', ContentType = ''text/html'', Data = Some ''x''\<rparr>
                         emptyDB))
   \<and> storeValue ''k'' \<lparr>Content = ''second'', ContentType = ''text/plain'', Data = None\<rparr>
         (snd (storeValue ''k''
                 \<lparr>Content = ''first'', ContentType = ''text/html'', Data = Some ''x''\<rparr> emptyDB))
       = (Inr (), snd (storeValue ''k''
                         \<lparr>Content = ''second'', ContentType = ''text/plain'', Data = None\<rparr>
                         (snd (storeValue ''k''
                                 \<lparr>Content = ''first'', ContentType = ''text/html'',
                                  Data = Some ''x''\<rparr> emptyDB))))
   \<and> fst (getValue ''k''
            (snd (storeValue ''k'' \<lparr>Content = ''second'', ContentType = ''text/plain'', Data = None\<rparr>
               (snd (storeValue ''k''
                       \<lparr>Content = ''first'', ContentType = ''text/html'', Data = Some ''x''\<rparr>
                       emptyDB)))))
       = Inr \<lparr>Content = ''second'', ContentType = ''text/plain'', Data = None\<rparr>"
proof -
  let ?v1 = "\<lparr>Content = ''first'', ContentType = ''text/html'', Data = Some ''x''\<rparr>"
  let ?v2 = "\<lparr>Content = ''second'', ContentType = ''text/plain'', Data = None\<rparr>"
  have h1: "''k'' \<noteq> []" by simp
  have h2: "validValue ?v2"
    by (simp add: validValue_def ValidString_ascii del: ValidString.simps)
  have h3: "storeValue ''k'' ?v1 emptyDB = (Inr (), snd (storeValue ''k'' ?v1 emptyDB))"
    by (rule storeValue_accepts) (simp_all add: keyError_def HasPrefix_def badgerPrefix_def maxKeySize_def len_def ValueLogFileSize_def)
  have h4: "storeValue ''k'' ?v2 (snd (storeValue ''k'' ?v1 emptyDB))
              = (Inr (), snd (storeValue ''k'' ?v2 (snd (storeValue ''k'' ?v1 emptyDB))))"
    by (rule storeValue_accepts) (simp_all add: keyError_def HasPrefix_def badgerPrefix_def maxKeySize_def len_def ValueLogFileSize_def)
  show ?thesis
    using h1 h2 h3 h4 overwrite_amended [OF h1 h2 h3 h4] by (simp add: absentIfEmpty_def)
qed

theorem overwrite_counterexample:
  "''k'' \<noteq> []
   \<and> validValue \<lparr>Content = [], ContentType = ''text/plain'', Data = Some []\<rparr>
   \<and> fst (storeValue ''k'' \<lparr>Content = ''first'', ContentType = ''text/html'', Data = None\<rparr>
            emptyDB) = Inr ()
   \<and> fst (storeValue ''k'' \<lparr>Content = [], ContentType = ''text/plain'', Data = Some []\<rparr>
            (snd (storeValue ''k'' \<lparr>Content = ''first'', ContentType = ''text/html'', Data = None\<rparr>
                    emptyDB))) = Inr ()
   \<and> fst (getValue ''k''
            (snd (storeValue ''k'' \<lparr>Content = [], ContentType = ''text/plain'', Data = Some []\<rparr>
               (snd (storeValue ''k''
                       \<lparr>Content = ''first'', ContentType = ''text/html'', Data = None\<rparr>
                       emptyDB)))))
       \<noteq> Inr \<lparr>Content = [], ContentType = ''text/plain'', Data = Some []\<rparr>"
proof -
  let ?v1 = "\<lparr>Content = ''first'', ContentType = ''text/html'', Data = None\<rparr>"
  let ?v2 = "\<lparr>Content = [], ContentType = ''text/plain'', Data = Some []\<rparr>"
  have h2: "validValue ?v2"
    by (simp add: validValue_def ValidString_ascii del: ValidString.simps)
  have h3: "storeValue ''k'' ?v1 emptyDB = (Inr (), snd (storeValue ''k'' ?v1 emptyDB))"
    by (rule storeValue_accepts) (simp_all add: keyError_def HasPrefix_def badgerPrefix_def maxKeySize_def len_def ValueLogFileSize_def)
  have h4: "storeValue ''k'' ?v2 (snd (storeValue ''k'' ?v1 emptyDB))
              = (Inr (), snd (storeValue ''k'' ?v2 (snd (storeValue ''k'' ?v1 emptyDB))))"
    by (rule storeValue_accepts) (simp_all add: keyError_def HasPrefix_def badgerPrefix_def maxKeySize_def len_def ValueLogFileSize_def)
  have "fst (getValue ''k'' (snd (storeValue ''k'' ?v2 (snd (storeValue ''k'' ?v1 emptyDB)))))
          = Inr (?v2\<lparr>Data := None\<rparr>)"
    using getValue_storeValue[OF h4] roundTrip_valid[OF h2] by (simp add: absentIfEmpty_def)
  moreover have "fst (storeValue ''k'' ?v1 emptyDB) = Inr ()"
    using h3 by (metis fst_conv)
  moreover have "fst (storeValue ''k'' ?v2 (snd (storeValue ''k'' ?v1 emptyDB))) = Inr ()"
    using h4 by (metis fst_conv)
  ultimately show ?thesis using h2 by simp
qed

text \<open>
  Claim C4. Delete visibility: for every non-empty path, after \<open>storeValue\<close> and then
  \<open>deleteValue\<close> on it have returned success, \<open>getValue\<close> on it returns
  \<open>ErrKeyNotFound\<close>.
\<close>

theorem delete_visibility:
  assumes "p \<noteq> []"
    and "storeValue p v db = (Inr (), db1)"
    and "deleteValue p db1 = (Inr (), db2)"
  shows "fst (getValue p db2) = Inl ErrKeyNotFound"
proof -
  have "db2 = snd (deleteValue p db1)" using assms(3) by simp
  then have "entries db2 p = None" by (simp add: deleteValue_absent)
  then show ?thesis using assms(1) by (simp add: getValue_eq)
qed

theorem delete_visibility_witness:
  "''docs/readme'' \<noteq> []
   \<and> storeValue ''docs/readme'' \<lparr>Content = ''# hi'', ContentType = ''text/markdown'', Data = None\<rparr> emptyDB
       = (Inr (), snd (storeValue ''docs/readme'' \<lparr>Content = ''# hi'', ContentType = ''text/markdown'', Data = None\<rparr> emptyDB))
   \<and> deleteValue ''docs/readme'' (snd (storeValue ''docs/readme'' \<lparr>Content = ''# hi'', ContentType = ''text/markdown'', Data = None\<rparr> emptyDB))
       = (Inr (), emptyDB)
   \<and> fst (getValue ''docs/readme'' emptyDB) = Inl ErrKeyNotFound"
proof -
  let ?v = "\<lparr>Content = ''# hi'', ContentType = ''text/markdown'', Data = None\<rparr>"
  have k: "keyError ''docs/readme'' = None" by (simp add: keyError_def HasPrefix_def badgerPrefix_def maxKeySize_def)
  have h1: "''docs/readme'' \<noteq> []" by simp
  have h2: "storeValue ''docs/readme'' ?v emptyDB
              = (Inr (), snd (storeValue ''docs/readme'' ?v emptyDB))"
    by (rule storeValue_accepts) (simp_all add: keyError_def HasPrefix_def badgerPrefix_def maxKeySize_def len_def ValueLogFileSize_def)
  have "entries (removeEntry ''docs/readme'' (snd (storeValue ''docs/readme'' ?v emptyDB)))
          = entries emptyDB"
    using storeValue_success(4)[OF h2] by (simp add: removeEntry.rep_eq emptyDB.rep_eq)
  then have h3: "deleteValue ''docs/readme'' (snd (storeValue ''docs/readme'' ?v emptyDB))
                   = (Inr (), emptyDB)"
    using k by (simp add: deleteValue_eq entries_inject)
  show ?thesis
    using h1 h2 h3 delete_visibility [OF h1 h2 h3] by simp
qed

text \<open>
  Claim C5. Missing key: for every non-empty path that holds no value, because it was
  never written or because its value was deleted, \<open>getValue\<close> returns the error
  \<open>ErrKeyNotFound\<close> and no value, and the handler answers 404. The handler answers
  404 for this error and for no other outcome of \<open>getValue\<close>.
\<close>

theorem missing_key_not_found:
  assumes "p \<noteq> []" and "entries db p = None" and "w_status w = None"
  shows "getValue p db = (Inl ErrKeyNotFound, db)
     \<and> fst (getValue p (snd (deleteValue p db0))) = Inl ErrKeyNotFound
     \<and> handleGet w r p db = (http_Error (notFoundMessage p) StatusNotFound w, db)
     \<and> w_status (fst (handleGet w r p db)) = Some StatusNotFound
     \<and> (\<forall>q d. w_status (fst (handleGet w r q d)) = Some StatusNotFound
                \<longleftrightarrow> fst (getValue q d) = Inl ErrKeyNotFound)"
  using assms handleGet_status[OF assms(3)]
  by (simp add: getValue_eq deleteValue_absent handleGet_def http_Error_status)

theorem missing_key_not_found_witness:
  "''never/written'' \<noteq> [] \<and> entries (initializeSampleData emptyDB) ''never/written'' = None
   \<and> w_status newResponseWriter = None
   \<and> getValue ''never/written'' (initializeSampleData emptyDB)
       = (Inl ErrKeyNotFound, initializeSampleData emptyDB)
   \<and> w_status (fst (handleGet newResponseWriter
          \<lparr>Method = ''GET'', Vars = [''path'' \<mapsto> ''never/written''], Header = Map.empty,
           Body = Inr []\<rparr>
          ''never/written'' (initializeSampleData emptyDB))) = Some StatusNotFound"
proof -
  have h1: "''never/written'' \<noteq> []" by simp
  have h2: "entries (initializeSampleData emptyDB) ''never/written'' = None"
    by (simp add: initializeSampleData_def samples_def storeValue_other emptyDB.rep_eq)
  have h3: "w_status newResponseWriter = None"
    by (simp add: newResponseWriter_def)
  show ?thesis
    using h1 h2 h3
      missing_key_not_found [of "''never/written''" "initializeSampleData emptyDB"
        newResponseWriter emptyDB
        "\<lparr>Method = ''GET'', Vars = [''path'' \<mapsto> ''never/written''], Header = Map.empty, Body = Inr []\<rparr>"]
    by blast
qed

text \<open>
  Claim C6. Content precedence on the read path: for every value \<open>getValue\<close> returns,
  the handler writes the binary data as the body when it is non-empty, whatever the
  text content is, and the text content otherwise; the Content-Type header of the
  response is the stored content type, unchanged.
\<close>

theorem content_precedence:
  assumes "fst (getValue path db) = Inr v"
  shows "w_body (fst (handleGet w r path db))
           = w_body w @ (if len (Data v) > 0 then bytesOf (Data v) else Content v)
     \<and> w_header (fst (handleGet w r path db)) ''Content-Type'' = Some [ContentType v]"
  using assms
  by (cases "getValue path db")
     (auto simp add: handleGet_def Let_def Write_def WriteHeader_def Header_Set_def)

theorem content_precedence_witness:
  "fst (getValue ''images/logo''
          (snd (storeValue ''images/logo''
                  \<lparr>Content = ''a logo'', ContentType = ''image/png'',
                   Data = Some [CHR 0x89, CHR 0x50, CHR 0x4E, CHR 0x47]\<rparr> emptyDB)))
     = Inr \<lparr>Content = ''a logo'', ContentType = ''image/png'',
            Data = Some [CHR 0x89, CHR 0x50, CHR 0x4E, CHR 0x47]\<rparr>
   \<and> w_body (fst (handleGet newResponseWriter
            \<lparr>Method = ''GET'', Vars = [''path'' \<mapsto> ''images/logo''], Header = Map.empty,
             Body = Inr []\<rparr>
            ''images/logo''
                    (snd (storeValue ''images/logo''
                            \<lparr>Content = ''a logo'', ContentType = ''image/png'',
                             Data = Some [CHR 0x89, CHR 0x50, CHR 0x4E, CHR 0x47]\<rparr> emptyDB))))
       = [CHR 0x89, CHR 0x50, CHR 0x4E, CHR 0x47]
   \<and> w_header (fst (handleGet newResponseWriter
            \<lparr>Method = ''GET'', Vars = [''path'' \<mapsto> ''images/logo''], Header = Map.empty,
             Body = Inr []\<rparr>
            ''images/logo''
                      (snd (storeValue ''images/logo''
                              \<lparr>Content = ''a logo'', ContentType = ''image/png'',
                               Data = Some [CHR 0x89, CHR 0x50, CHR 0x4E, CHR 0x47]\<rparr> emptyDB))))
         ''Content-Type'' = Some [''image/png'']"
proof -
  let ?v = "\<lparr>Content = ''a logo'', ContentType = ''image/png'',
             Data = Some [CHR 0x89, CHR 0x50, CHR 0x4E, CHR 0x47]\<rparr>"
  have "validValue ?v"
    by (simp add: validValue_def ValidString_ascii del: ValidString.simps)
  moreover have "storeValue ''images/logo'' ?v emptyDB
                   = (Inr (), snd (storeValue ''images/logo'' ?v emptyDB))"
    by (rule storeValue_accepts) (simp_all add: keyError_def HasPrefix_def badgerPrefix_def maxKeySize_def len_def ValueLogFileSize_def)
  ultimately have h: "fst (getValue ''images/logo'' (snd (storeValue ''images/logo'' ?v emptyDB)))
                        = Inr ?v"
    using getValue_storeValue[of "''images/logo''" ?v emptyDB]
    by (simp add: roundTrip_valid absentIfEmpty_def)
  show ?thesis
    using h content_precedence [OF h, of newResponseWriter
        "\<lparr>Method = ''GET'', Vars = [''path'' \<mapsto> ''images/logo''], Header = Map.empty, Body = Inr []\<rparr>"]
    by (simp add: newResponseWriter_def len_def bytesOf_def)
qed

text \<open>
  Claim C7. Validation of a JSON write: when the body of the request decodes to a
  value with an empty content type, the handler answers 400 and does not call
  \<open>storeValue\<close>: the store is left as it was.
\<close>

theorem post_requires_content_type:
  assumes "Body r = Inr b" and "json_Decode b = Inr dv" and "ContentType dv = []"
    and "w_status w = None"
  shows "handlePost w r path db = (http_Error ''content_type is required'' StatusBadRequest w, db)
     \<and> w_status (fst (handlePost w r path db)) = Some StatusBadRequest
     \<and> snd (handlePost w r path db) = db"
  using assms by (simp add: handlePost_def http_Error_status)

theorem post_requires_content_type_witness:
  "Body \<lparr>Method = ''POST'', Vars = [''path'' \<mapsto> ''docs/new''], Header = Map.empty,
         Body = Inr (''{'' @ [dquote] @ ''content'' @ [dquote] @ '':'' @ [dquote] @ ''hello''
                      @ [dquote] @ ''}'')\<rparr>
     = Inr (''{'' @ [dquote] @ ''content'' @ [dquote] @ '':'' @ [dquote] @ ''hello''
              @ [dquote] @ ''}'')
   \<and> json_Decode (''{'' @ [dquote] @ ''content'' @ [dquote] @ '':'' @ [dquote] @ ''hello''
                    @ [dquote] @ ''}'')
       = Inr \<lparr>Content = ''hello'', ContentType = [], Data = None\<rparr>
   \<and> ContentType \<lparr>Content = ''hello'', ContentType = [], Data = None\<rparr> = []
   \<and> w_status newResponseWriter = None
   \<and> w_status (fst (handlePost newResponseWriter
         \<lparr>Method = ''POST'', Vars = [''path'' \<mapsto> ''docs/new''], Header = Map.empty,
          Body = Inr (''{'' @ [dquote] @ ''content'' @ [dquote] @ '':'' @ [dquote] @ ''hello''
                       @ [dquote] @ ''}'')\<rparr>
         ''docs/new'' (initializeSampleData emptyDB))) = Some StatusBadRequest
   \<and> snd (handlePost newResponseWriter
         \<lparr>Method = ''POST'', Vars = [''path'' \<mapsto> ''docs/new''], Header = Map.empty,
          Body = Inr (''{'' @ [dquote] @ ''content'' @ [dquote] @ '':'' @ [dquote] @ ''hello''
                       @ [dquote] @ ''}'')\<rparr>
         ''docs/new'' (initializeSampleData emptyDB)) = initializeSampleData emptyDB"
proof -
  let ?b = "''{'' @ [dquote] @ ''content'' @ [dquote] @ '':'' @ [dquote] @ ''hello''
              @ [dquote] @ ''}''"
  let ?r = "\<lparr>Method = ''POST'', Vars = [''path'' \<mapsto> ''docs/new''], Header = Map.empty,
             Body = Inr ?b\<rparr>"
  let ?dv = "\<lparr>Content = ''hello'', ContentType = [], Data = None\<rparr>"
  have h1: "Body ?r = Inr ?b" by simp
  have h2: "json_Decode ?b = Inr ?dv" by code_simp
  have h3: "ContentType ?dv = []" by simp
  have h4: "w_status newResponseWriter = None" by (simp add: newResponseWriter_def)
  show ?thesis
    using h1 h2 h3 h4 post_requires_content_type [of ?r ?b ?dv newResponseWriter "''docs/new''"
      "initializeSampleData emptyDB"]
    by blast
qed

text \<open>
  Claim C8 (as amended). Raw-body write: for every PUT request whose body was read and
  whose write the store accepts, the value handed to \<open>storeValue\<close> has the request
  body as its binary data and, as its content type, the Content-Type header of the
  request, or \<^verbatim>\<open>application/octet-stream\<close> when that header is absent or empty, and
  the store after the handler is the store after that write. Read back, the value has
  the bytes of the body, and the content type with every byte that starts no
  well-formed UTF-8 sequence replaced by U+FFFD: the content type itself when it is
  well-formed UTF-8.
\<close>

theorem put_stores_raw_body_amended:
  assumes "Body r = Inr body"
    and "ct = (if Header_Get ''Content-Type'' (Header r) = [] then ''application/octet-stream''
               else Header_Get ''Content-Type'' (Header r))"
    and "storeValue path \<lparr>Content = [], ContentType = ct, Data = Some body\<rparr> db = (Inr (), db')"
  shows "snd (handlePut w r path db) = db'
     \<and> fst (getValue path db')
         = Inr \<lparr>Content = [], ContentType = coerceUTF8 ct, Data = absentIfEmpty (Some body)\<rparr>
     \<and> bytesOf (absentIfEmpty (Some body)) = body
     \<and> (ValidString ct \<longrightarrow> coerceUTF8 ct = ct)"
  using assms by (rule handlePut_stored)

theorem put_stores_raw_body_amended_witness:
  "Body \<lparr>Method = ''PUT'', Vars = [''path'' \<mapsto> ''images/logo''],
         Header = [''Content-Type'' \<mapsto> [''image/png'']],
         Body = Inr [CHR 0x89, CHR 0x50, CHR 0x4E, CHR 0x47]\<rparr>
     = Inr [CHR 0x89, CHR 0x50, CHR 0x4E, CHR 0x47]
   \<and> storeValue ''images/logo''
         \<lparr>Content = [], ContentType = ''image/png'', Data = Some [CHR 0x89, CHR 0x50, CHR 0x4E, CHR 0x47]\<rparr> emptyDB
       = (Inr (), snd (storeValue ''images/logo''
                         \<lparr>Content = [], ContentType = ''image/png'', Data = Some [CHR 0x89, CHR 0x50, CHR 0x4E, CHR 0x47]\<rparr>
                         emptyDB))
   \<and> ValidString ''image/png''
   \<and> fst (getValue ''images/logo''
        (snd (handlePut newResponseWriter
               \<lparr>Method = ''PUT'', Vars = [''path'' \<mapsto> ''images/logo''],
                Header = [''Content-Type'' \<mapsto> [''image/png'']],
                Body = Inr [CHR 0x89, CHR 0x50, CHR 0x4E, CHR 0x47]\<rparr> ''images/logo'' emptyDB)))
       = Inr \<lparr>Content = [], ContentType = ''image/png'', Data = Some [CHR 0x89, CHR 0x50, CHR 0x4E, CHR 0x47]\<rparr>"
proof -
  let ?body = "[CHR 0x89, CHR 0x50, CHR 0x4E, CHR 0x47]"
  let ?r = "\<lparr>Method = ''PUT'', Vars = [''path'' \<mapsto> ''images/logo''],
             Header = [''Content-Type'' \<mapsto> [''image/png'']], Body = Inr ?body\<rparr>"
  let ?dv = "\<lparr>Content = [], ContentType = ''image/png'', Data = Some ?body\<rparr>"
  have h1: "Body ?r = Inr ?body" by simp
  have h2: "''image/png''
              = (if Header_Get ''Content-Type'' (Header ?r) = [] then ''application/octet-stream''
                 else Header_Get ''Content-Type'' (Header ?r))"
    by (simp add: Header_Get_def)
  have h3: "storeValue ''images/logo'' ?dv emptyDB
              = (Inr (), snd (storeValue ''images/logo'' ?dv emptyDB))"
    by (rule storeValue_accepts) (simp_all add: keyError_def HasPrefix_def badgerPrefix_def maxKeySize_def len_def ValueLogFileSize_def)
  have h4: "ValidString ''image/png''"
    by (simp add: ValidString_ascii del: ValidString.simps)
  show ?thesis
    using h1 h3 h4 put_stores_raw_body_amended [OF h1 h2 h3, of newResponseWriter]
    by (simp add: absentIfEmpty_def del: ValidString.simps coerceUTF8.simps)
qed

text \<open>
  The claim as written fails twice. A Content-Type header with a byte that is no
  UTF-8 (here the Latin-1 byte E9) is stored and read back with U+FFFD in its place;
  and a PUT under a key the engine refuses is answered 500 and stores nothing.
\<close>

theorem put_stores_raw_body_counterexample:
  "Header_Get ''Content-Type''
     (Header \<lparr>Method = ''PUT'', Vars = [''path'' \<mapsto> ''a''],
              Header = [''Content-Type'' \<mapsto> [[CHR ''t'', CHR ''/'', CHR 0xE9]]],
              Body = Inr ''x''\<rparr>) = [CHR ''t'', CHR ''/'', CHR 0xE9]
   \<and> fst (getValue ''a''
        (snd (handlePut newResponseWriter
               \<lparr>Method = ''PUT'', Vars = [''path'' \<mapsto> ''a''],
                Header = [''Content-Type'' \<mapsto> [[CHR ''t'', CHR ''/'', CHR 0xE9]]],
                Body = Inr ''x''\<rparr> ''a'' emptyDB)))
       = Inr \<lparr>Content = [], ContentType = [CHR ''t'', CHR ''/'', CHR 0xEF, CHR 0xBF, CHR 0xBD],
              Data = Some ''x''\<rparr>
   \<and> [CHR ''t'', CHR ''/'', CHR 0xEF, CHR 0xBF, CHR 0xBD] \<noteq> [CHR ''t'', CHR ''/'', CHR 0xE9]
   \<and> w_status (fst (handlePut newResponseWriter
               \<lparr>Method = ''PUT'', Vars = [''path'' \<mapsto> ''!badger!x''], Header = Map.empty,
                Body = Inr ''x''\<rparr> ''!badger!x'' emptyDB)) = Some StatusInternalServerError
   \<and> fst (getValue ''!badger!x''
        (snd (handlePut newResponseWriter
               \<lparr>Method = ''PUT'', Vars = [''path'' \<mapsto> ''!badger!x''], Header = Map.empty,
                Body = Inr ''x''\<rparr> ''!badger!x'' emptyDB))) = Inl ErrKeyNotFound"
proof -
  let ?ct = "[CHR ''t'', CHR ''/'', CHR 0xE9]"
  let ?r = "\<lparr>Method = ''PUT'', Vars = [''path'' \<mapsto> ''a''],
             Header = [''Content-Type'' \<mapsto> [?ct]], Body = Inr ''x''\<rparr>"
  let ?dv = "\<lparr>Content = [], ContentType = ?ct, Data = Some ''x''\<rparr>"
  let ?r' = "\<lparr>Method = ''PUT'', Vars = [''path'' \<mapsto> ''!badger!x''], Header = Map.empty,
              Body = Inr ''x''\<rparr>"
  have h1: "Body ?r = Inr ''x''" by simp
  have g: "Header_Get ''Content-Type'' (Header ?r) = ?ct"
    by (simp add: Header_Get_def)
  have h2: "?ct = (if Header_Get ''Content-Type'' (Header ?r) = [] then ''application/octet-stream''
                   else Header_Get ''Content-Type'' (Header ?r))"
    unfolding g by simp
  have h3: "storeValue ''a'' ?dv emptyDB = (Inr (), snd (storeValue ''a'' ?dv emptyDB))"
    by (rule storeValue_accepts) (simp_all add: keyError_def HasPrefix_def badgerPrefix_def maxKeySize_def len_def ValueLogFileSize_def)
  have c: "coerceUTF8 ?ct = [CHR ''t'', CHR ''/'', CHR 0xEF, CHR 0xBF, CHR 0xBD]"
    by (simp add: RuneError_def EncodeRune_def char_of_eq_small)
  have a: "fst (getValue ''a'' (snd (handlePut newResponseWriter ?r ''a'' emptyDB)))
             = Inr \<lparr>Content = [], ContentType = [CHR ''t'', CHR ''/'', CHR 0xEF, CHR 0xBF, CHR 0xBD],
                    Data = Some ''x''\<rparr>"
    using handlePut_stored [OF h1 h2 h3, of newResponseWriter] c
    by (simp add: absentIfEmpty_def del: coerceUTF8.simps)
  have k: "keyError ''!badger!x'' = Some ErrInvalidKey"
    by (simp add: keyError_def HasPrefix_def badgerPrefix_def maxKeySize_def)
  have s: "storeValue ''!badger!x'' v emptyDB = (Inl ErrInvalidKey, emptyDB)" for v
    using k by (simp add: storeValue_eq txn_modify_def)
  have b: "handlePut newResponseWriter ?r' ''!badger!x'' emptyDB
             = (http_Error ''Failed to store data'' StatusInternalServerError newResponseWriter,
                emptyDB)"
    by (simp add: handlePut_def Let_def s)
  have b1: "w_status (fst (handlePut newResponseWriter ?r' ''!badger!x'' emptyDB))
              = Some StatusInternalServerError"
    unfolding b by (simp add: http_Error_status newResponseWriter_def)
  have b2: "fst (getValue ''!badger!x'' (snd (handlePut newResponseWriter ?r' ''!badger!x'' emptyDB)))
              = Inl ErrKeyNotFound"
    unfolding b by (simp add: getValue_eq emptyDB.rep_eq)
  show ?thesis using g a b1 b2 by simp
qed

text \<open>
  Claim C9. \<open>getValue\<close> has no effect on the store: for every path and every store,
  the store after the call is the store before it, and so it is after the handler of
  GET.
\<close>

theorem get_is_side_effect_free:
  "snd (getValue p db) = db \<and> snd (handleGet w r p db) = db"
  by (simp add: getValue_eq handleGet_def Let_def split: sum.splits)

text \<open>
  Claim C10 (as amended). \<open>deleteValue\<close> returns success for every key the engine
  accepts (not empty, not starting with the engine's own prefix, at most 65000 bytes),
  with or without a value under it; on a key without a value it leaves the store as it
  is. No call of \<open>deleteValue\<close> returns \<open>ErrKeyNotFound\<close>. The handler of DELETE
  answers 404 exactly when the \<open>getValue\<close> it calls first returns \<open>ErrKeyNotFound\<close>,
  and then the store is untouched.
\<close>

theorem delete_absent_key_succeeds_amended:
  assumes "keyError key = None" and "w_status w = None"
  shows "fst (deleteValue key db) = Inr ()
     \<and> entries (snd (deleteValue key db)) = (entries db)(key := None)
     \<and> (entries db key = None \<longrightarrow> deleteValue key db = (Inr (), db))
     \<and> (\<forall>k d. fst (deleteValue k d) \<noteq> Inl ErrKeyNotFound)
     \<and> (\<forall>k d. w_status (fst (handleDelete w r k d)) = Some StatusNotFound
                \<longleftrightarrow> fst (getValue k d) = Inl ErrKeyNotFound)
     \<and> (entries db key = None \<longrightarrow>
          handleDelete w r key db = (http_Error (notFoundMessage key) StatusNotFound w, db))"
  using assms by (rule deleteValue_accepted)

theorem delete_absent_key_succeeds_amended_witness:
  "keyError ''docs/readme'' = None \<and> w_status newResponseWriter = None
   \<and> entries emptyDB ''docs/readme'' = None
   \<and> deleteValue ''docs/readme'' emptyDB = (Inr (), emptyDB)
   \<and> handleDelete newResponseWriter
          \<lparr>Method = ''DELETE'', Vars = [''path'' \<mapsto> ''docs/readme''], Header = Map.empty,
           Body = Inr []\<rparr>
          ''docs/readme'' emptyDB
       = (http_Error (notFoundMessage ''docs/readme'') StatusNotFound newResponseWriter, emptyDB)"
proof -
  have h1: "keyError ''docs/readme'' = None" by (simp add: keyError_def HasPrefix_def badgerPrefix_def maxKeySize_def)
  have h2: "w_status newResponseWriter = None" by (simp add: newResponseWriter_def)
  have h3: "entries emptyDB ''docs/readme'' = None" by (simp add: emptyDB.rep_eq)
  show ?thesis
    using h1 h2 h3
      delete_absent_key_succeeds_amended [of "''docs/readme''" newResponseWriter emptyDB
        "\<lparr>Method = ''DELETE'', Vars = [''path'' \<mapsto> ''docs/readme''], Header = Map.empty, Body = Inr []\<rparr>"]
    by blast
qed

text \<open>
  The claim as written fails: the engine refuses a deletion under a key with its own
  prefix, and under a key of more than 65000 bytes, whether or not a value is there.
\<close>

theorem delete_absent_key_counterexample:
  "''!badger!x'' \<noteq> []
   \<and> fst (deleteValue ''!badger!x'' emptyDB) = Inl ErrInvalidKey
   \<and> replicate 65001 (CHR ''k'') \<noteq> []
   \<and> fst (deleteValue (replicate 65001 (CHR ''k'')) emptyDB) = Inl (ErrExceedsSize ''Key'')"
proof -
  have "keyError ''!badger!x'' = Some ErrInvalidKey"
    by (simp add: keyError_def HasPrefix_def badgerPrefix_def maxKeySize_def)
  moreover have "keyError (replicate 65001 (CHR ''k'')) = Some (ErrExceedsSize ''Key'')"
    using replicate_no_prefix[of 65001] by (simp add: keyError_def maxKeySize_def)
  moreover have "replicate 65001 (CHR ''k'') \<noteq> []" by simp
  ultimately show ?thesis by (simp add: deleteValue_eq)
qed

end
